theory Spec2Isabelle
  imports Complex_Main "HOL-Library.AList" "HOL-Library.Sublist"
begin

section \<open>Books Management API with reporting: bulk pipeline of question3\<close>

text \<open>
  A shallow embedding of the Express server of \<^verbatim>\<open>src/question3/README.md\<close> (the
  JavaScript after the documentation): the book routes with their cache-aside read,
  the bulk intake \<^verbatim>\<open>POST /books/bulk\<close>, the two cron jobs \<^verbatim>\<open>processBulkBooks\<close> and
  \<^verbatim>\<open>generateAndSendReports\<close>, and the status route \<^verbatim>\<open>GET /books/queue\<close>.

  The handlers are asynchronous JavaScript; the model runs each handler and each cron
  tick to completion, one after the other. Everything the code takes from outside is a
  field of the state: the clock, the identifiers \<^verbatim>\<open>uuidv4()\<close> returns, the draws of
  \<^verbatim>\<open>Math.random()\<close>, and whether an awaited call to Redis, the file system, the PDF
  writer or the mail transport throws.
\<close>

subsection \<open>JavaScript values of a request body\<close>

datatype jsval =
    JUndefined
  | JNull
  | JBool bool
  | JNum int
  | JStr string
  | JArr "jsval list"
  | JObj "(string \<times> jsval) list"

text \<open>Truthiness, as \<^verbatim>\<open>!x\<close> tests it. A JSON number is a double; only whether it is
  zero matters here, so it is an integer in the model.\<close>

fun truthy :: "jsval \<Rightarrow> bool" where
  "truthy JUndefined = False"
| "truthy JNull = False"
| "truthy (JBool b) = b"
| "truthy (JNum n) = (n \<noteq> 0)"
| "truthy (JStr s) = (s \<noteq> [])"
| "truthy (JArr xs) = True"
| "truthy (JObj ps) = True"

datatype error = TypeError | RedisError | SimulatedDatabaseError | IOError | ShapeError

text \<open>Property read \<^verbatim>\<open>v.k\<close>: a TypeError on \<^verbatim>\<open>null\<close> and \<^verbatim>\<open>undefined\<close>, the own
  property of an object, \<^verbatim>\<open>length\<close> of an array or a string, \<^verbatim>\<open>undefined\<close> otherwise.\<close>

fun js_get :: "jsval \<Rightarrow> string \<Rightarrow> error + jsval" where
  "js_get JUndefined k = Inl TypeError"
| "js_get JNull k = Inl TypeError"
| "js_get (JObj ps) k = Inr (case map_of ps k of None \<Rightarrow> JUndefined | Some v \<Rightarrow> v)"
| "js_get (JArr xs) k = Inr (if k = ''length'' then JNum (int (length xs)) else JUndefined)"
| "js_get (JStr s) k = Inr (if k = ''length'' then JNum (int (length s)) else JUndefined)"
| "js_get (JBool b) k = Inr JUndefined"
| "js_get (JNum n) k = Inr JUndefined"

subsection \<open>Records of the program\<close>

text \<open>\<^verbatim>\<open>req.user\<close>, as \<^verbatim>\<open>authenticateUser\<close> leaves it.\<close>

record user =
  user_id :: string
  user_username :: string
  user_email :: string

text \<open>A book object: the four properties every creating path sets, and the remaining
  own properties (title, author, isbn, ...) as an association list.\<close>

record book =
  book_id :: string
  book_userId :: string
  book_createdAt :: nat
  book_updatedAt :: nat
  book_props :: "(string \<times> jsval) list"

definition book_get :: "book \<Rightarrow> string \<Rightarrow> jsval" where
  "book_get b k = (case map_of (book_props b) k of None \<Rightarrow> JUndefined | Some v \<Rightarrow> v)"

text \<open>\<^verbatim>\<open>bulkData\<close> of \<^verbatim>\<open>POST /books/bulk\<close>: the QueueEntry.\<close>

record bulkData =
  userId :: string
  username :: string
  userEmail :: string
  books :: "book list"
  queuedAt :: nat
  requestId :: string

record failedBook =
  fb_title :: jsval
  fb_author :: jsval
  fb_error :: string

text \<open>\<^verbatim>\<open>statusData\<close> of \<^verbatim>\<open>processBulkBooks\<close>: the StatusEntry.\<close>

record statusData =
  st_userId :: string
  st_username :: string
  st_userEmail :: string
  st_requestId :: string
  totalBooks :: nat
  successCount :: nat
  failCount :: nat
  failedBooks :: "failedBook list"
  processedAt :: nat
  st_queuedAt :: nat
  status :: string

text \<open>What a Redis key holds: the JSON text of one of three shapes, kept as the value it
  encodes (\<^verbatim>\<open>JSON.parse (JSON.stringify x)\<close> is \<^verbatim>\<open>x\<close> on them), together with the
  seconds left of its \<^verbatim>\<open>SETEX\<close>.\<close>

datatype rvalue = VBooks "book list" | VQueue bulkData | VStatus statusData

record entry =
  val :: rvalue
  ttl :: int

record email_sent =
  mail_to :: string
  mail_username :: string
  mail_attachment :: string
  mail_requestId :: string

record world =
  redis :: "(string \<times> entry) list"
  booksDatabase :: "book list"
  now :: nat
  uuid :: "nat \<Rightarrow> string"
  uuid_ctr :: nat
  io_fails :: "nat \<Rightarrow> bool"
  io_ctr :: nat
  random_lt :: "nat \<Rightarrow> bool"
  random_ctr :: nat
  files :: "string list"
  outbox :: "email_sent list"
  pdf_cleanup :: bool

subsection \<open>Outside calls\<close>

text \<open>\<^verbatim>\<open>generateId\<close>: the next identifier of the supply.\<close>

definition generateId :: "world \<Rightarrow> string \<times> world" where
  "generateId w = (uuid w (uuid_ctr w), w\<lparr>uuid_ctr := Suc (uuid_ctr w)\<rparr>)"

text \<open>\<^verbatim>\<open>Math.random() < 0.05\<close>: the next draw.\<close>

definition random_draw :: "world \<Rightarrow> bool \<times> world" where
  "random_draw w = (random_lt w (random_ctr w), w\<lparr>random_ctr := Suc (random_ctr w)\<rparr>)"

text \<open>Every awaited outside call takes the next answer of \<open>io_fails\<close>: when it is
  \<open>True\<close> the call throws and has done nothing.\<close>

definition io_tick :: "world \<Rightarrow> world" where
  "io_tick w = w\<lparr>io_ctr := Suc (io_ctr w)\<rparr>"

definition io_down :: "world \<Rightarrow> bool" where
  "io_down w = io_fails w (io_ctr w)"

definition REDIS_KEYS_userBooks :: "string \<Rightarrow> string" where
  "REDIS_KEYS_userBooks u = ''books:user:'' @ u"

definition REDIS_KEYS_bulkBooks :: "string \<Rightarrow> string" where
  "REDIS_KEYS_bulkBooks u = ''bulk_books:user:'' @ u"

definition REDIS_KEYS_bulkStatus :: "string \<Rightarrow> string" where
  "REDIS_KEYS_bulkStatus u = ''bulk_status:user:'' @ u"

text \<open>The two patterns end in their only \<^verbatim>\<open>*\<close>: they match the keys with the prefix.\<close>

definition allBulkKeys :: "string \<Rightarrow> bool" where
  "allBulkKeys k = prefix ''bulk_books:user:'' k"

definition allStatusKeys :: "string \<Rightarrow> bool" where
  "allStatusKeys k = prefix ''bulk_status:user:'' k"

definition redis_get :: "string \<Rightarrow> world \<Rightarrow> (error + rvalue option) \<times> world" where
  "redis_get k w =
     (if io_down w then (Inl RedisError, io_tick w)
      else (Inr (map_option val (map_of (redis w) k)), io_tick w))"

definition redis_setex :: "string \<Rightarrow> int \<Rightarrow> rvalue \<Rightarrow> world \<Rightarrow> (error + unit) \<times> world" where
  "redis_setex k secs v w =
     (if io_down w then (Inl RedisError, io_tick w)
      else (Inr (), io_tick (w\<lparr>redis := AList.update k \<lparr>val = v, ttl = secs\<rparr> (redis w)\<rparr>)))"

definition redis_del :: "string \<Rightarrow> world \<Rightarrow> (error + unit) \<times> world" where
  "redis_del k w =
     (if io_down w then (Inl RedisError, io_tick w)
      else (Inr (), io_tick (w\<lparr>redis := AList.delete k (redis w)\<rparr>)))"

definition redis_keys :: "(string \<Rightarrow> bool) \<Rightarrow> world \<Rightarrow> (error + string list) \<times> world" where
  "redis_keys pat w =
     (if io_down w then (Inl RedisError, io_tick w)
      else (Inr (filter pat (map fst (redis w))), io_tick w))"

text \<open>\<^verbatim>\<open>TTL\<close>: -2 for a key that does not exist.\<close>

definition redis_ttl :: "string \<Rightarrow> world \<Rightarrow> (error + int) \<times> world" where
  "redis_ttl k w =
     (if io_down w then (Inl RedisError, io_tick w)
      else (Inr (case map_of (redis w) k of None \<Rightarrow> - 2 | Some e \<Rightarrow> ttl e), io_tick w))"

subsection \<open>Responses\<close>

datatype source = Cache | Database

datatype validation_error =
    NonEmptyArray
  | Maximum100
  | MissingFields nat

record ack =
  ack_requestId :: string
  ack_queuedBooks :: nat
  ack_queuedAt :: nat

datatype expires = Seconds int | Unknown

datatype queue_view =
    NoQueue
  | Queued nat string nat expires
  | ProcessedAwaitingReport string nat nat nat nat expires

datatype response =
    BooksOk source rvalue
  | BookCreated book
  | BookUpdated book
  | BookDeleted book
  | NotFound
  | BadRequest validation_error
  | Accepted ack
  | QueueOk queue_view
  | InternalServerError

subsection \<open>\<^verbatim>\<open>POST /books/bulk\<close>\<close>

text \<open>The validation loop from index \<open>i\<close> on: the first index whose item has a falsy
  \<^verbatim>\<open>title\<close> or \<^verbatim>\<open>author\<close>, or the TypeError of reading a property of \<^verbatim>\<open>null\<close>.\<close>

fun validate_books :: "nat \<Rightarrow> jsval list \<Rightarrow> error + nat option" where
  "validate_books i [] = Inr None"
| "validate_books i (b # bs) =
     (case js_get b ''title'' of
        Inl e \<Rightarrow> Inl e
      | Inr t \<Rightarrow>
          if \<not> truthy t then Inr (Some i)
          else (case js_get b ''author'' of
                  Inl e \<Rightarrow> Inl e
                | Inr a \<Rightarrow>
                    if \<not> truthy a then Inr (Some i)
                    else validate_books (Suc i) bs))"

text \<open>The own properties \<^verbatim>\<open>...book\<close> copies. Only an object passes the validation,
  so the spread of a string or an array (their indices) is never taken.\<close>

fun spread :: "jsval \<Rightarrow> (string \<times> jsval) list" where
  "spread (JObj ps) = ps"
| "spread v = []"

definition stamped :: "string list" where
  "stamped = [''id'', ''userId'', ''createdAt'', ''updatedAt'']"

text \<open>\<^verbatim>\<open>books.map(book => ({...book, id: generateId(), userId, createdAt, updatedAt}))\<close>,
  the identifiers taken from position \<open>c\<close> of the supply on.\<close>

fun stamp_books :: "string \<Rightarrow> nat \<Rightarrow> (nat \<Rightarrow> string) \<Rightarrow> nat \<Rightarrow> jsval list \<Rightarrow> book list" where
  "stamp_books u t ids c [] = []"
| "stamp_books u t ids c (b # bs) =
     \<lparr>book_id = ids c, book_userId = u, book_createdAt = t, book_updatedAt = t,
      book_props = filter (\<lambda>p. fst p \<notin> set stamped) (spread b)\<rparr>
     # stamp_books u t ids (Suc c) bs"

definition make_bulkData :: "user \<Rightarrow> jsval list \<Rightarrow> world \<Rightarrow> bulkData" where
  "make_bulkData u bs w =
     \<lparr>userId = user_id u, username = user_username u, userEmail = user_email u,
      books = stamp_books (user_id u) (now w) (uuid w) (uuid_ctr w) bs,
      queuedAt = now w,
      requestId = uuid w (uuid_ctr w + length bs)\<rparr>"

definition post_bulk :: "user \<Rightarrow> jsval \<Rightarrow> world \<Rightarrow> response \<times> world" where
  "post_bulk u body w =
     (case js_get body ''books'' of
        Inl e \<Rightarrow> (InternalServerError, w)
      | Inr (JArr bs) \<Rightarrow>
          if length bs = 0 then (BadRequest NonEmptyArray, w)
          else if length bs > 100 then (BadRequest Maximum100, w)
          else (case validate_books 0 bs of
                  Inl e \<Rightarrow> (InternalServerError, w)
                | Inr (Some i) \<Rightarrow> (BadRequest (MissingFields i), w)
                | Inr None \<Rightarrow>
                    let bulkData = make_bulkData u bs w;
                        w1 = w\<lparr>uuid_ctr := uuid_ctr w + length bs + 1\<rparr>
                    in (case redis_setex (REDIS_KEYS_bulkBooks (user_id u)) 7200 (VQueue bulkData) w1 of
                          (Inl e, w2) \<Rightarrow> (InternalServerError, w2)
                        | (Inr x, w2) \<Rightarrow>
                            (Accepted \<lparr>ack_requestId = requestId bulkData,
                                       ack_queuedBooks = length bs,
                                       ack_queuedAt = queuedAt bulkData\<rparr>, w2)))
      | Inr other \<Rightarrow> (BadRequest NonEmptyArray, w))"

subsection \<open>\<^verbatim>\<open>processBulkBooks\<close>\<close>

record tally =
  t_successCount :: nat
  t_failCount :: nat
  t_failedBooks :: "failedBook list"

text \<open>The inner loop \<^verbatim>\<open>for (const book of books)\<close>: a draw below 0.05 throws the
  simulated error, which the \<^verbatim>\<open>catch\<close> of the same iteration records.\<close>

fun process_books :: "book list \<Rightarrow> tally \<Rightarrow> world \<Rightarrow> tally \<times> world" where
  "process_books [] t w = (t, w)"
| "process_books (b # bs) t w =
     (case random_draw w of
        (True, w1) \<Rightarrow>
          process_books bs
            (t\<lparr>t_failCount := t_failCount t + 1,
               t_failedBooks := t_failedBooks t @
                 [\<lparr>fb_title = book_get b ''title'', fb_author = book_get b ''author'',
                   fb_error = ''Simulated database error''\<rparr>]\<rparr>) w1
      | (False, w1) \<Rightarrow>
          process_books bs (t\<lparr>t_successCount := t_successCount t + 1\<rparr>)
            (w1\<lparr>booksDatabase := booksDatabase w1 @ [b]\<rparr>))"

definition make_statusData :: "bulkData \<Rightarrow> tally \<Rightarrow> nat \<Rightarrow> statusData" where
  "make_statusData d t pa =
     \<lparr>st_userId = userId d, st_username = username d, st_userEmail = userEmail d,
      st_requestId = requestId d, totalBooks = length (books d),
      successCount = t_successCount t, failCount = t_failCount t,
      failedBooks = t_failedBooks t, processedAt = pa, st_queuedAt = queuedAt d,
      status = ''completed''\<rparr>"

text \<open>The counters and the list at the start of a key.\<close>

definition tally0 :: tally where
  "tally0 = \<lparr>t_successCount = 0, t_failCount = 0, t_failedBooks = []\<rparr>"

text \<open>The body of the \<^verbatim>\<open>try\<close> for one key. \<open>Inr False\<close> is the \<^verbatim>\<open>continue\<close> of a key
  that is gone, \<open>Inr True\<close> the end of the block, \<open>Inl e\<close> what the \<^verbatim>\<open>catch\<close> gets.
  On a text without \<^verbatim>\<open>books\<close> the read of \<^verbatim>\<open>books.length\<close> throws: \<open>ShapeError\<close>.\<close>

definition process_key :: "string \<Rightarrow> world \<Rightarrow> (error + bool) \<times> world" where
  "process_key key w =
     (case redis_get key w of
        (Inl e, w1) \<Rightarrow> (Inl e, w1)
      | (Inr None, w1) \<Rightarrow> (Inr False, w1)
      | (Inr (Some (VQueue d)), w1) \<Rightarrow>
          (case process_books (books d) tally0 w1 of
             (t, w2) \<Rightarrow>
               (case redis_setex (REDIS_KEYS_bulkStatus (userId d)) 3600
                       (VStatus (make_statusData d t (now w1))) w2 of
                  (Inl e, w3) \<Rightarrow> (Inl e, w3)
                | (Inr x, w3) \<Rightarrow>
                    (case redis_del (REDIS_KEYS_userBooks (userId d)) w3 of
                       (Inl e, w4) \<Rightarrow> (Inl e, w4)
                     | (Inr y, w4) \<Rightarrow>
                         (case redis_del key w4 of
                            (Inl e, w5) \<Rightarrow> (Inl e, w5)
                          | (Inr z, w5) \<Rightarrow> (Inr True, w5)))))
      | (Inr (Some other), w1) \<Rightarrow> (Inl ShapeError, w1))"

text \<open>The status text a pass over the queue text \<open>d\<close> stores when it starts in \<open>w\<close>.\<close>

definition status_of :: "bulkData \<Rightarrow> world \<Rightarrow> entry" where
  "status_of d w =
     \<lparr>val = VStatus (make_statusData d (fst (process_books (books d) tally0 (io_tick w))) (now w)),
      ttl = 3600\<rparr>"

text \<open>The loop over the keys: the \<^verbatim>\<open>catch\<close> of each iteration only logs.\<close>

fun process_keys :: "string list \<Rightarrow> world \<Rightarrow> world" where
  "process_keys [] w = w"
| "process_keys (k # ks) w = process_keys ks (snd (process_key k w))"

definition processBulkBooks :: "world \<Rightarrow> world" where
  "processBulkBooks w =
     (case redis_keys allBulkKeys w of
        (Inl e, w1) \<Rightarrow> w1
      | (Inr bulkKeys, w1) \<Rightarrow>
          if length bulkKeys = 0 then w1 else process_keys bulkKeys w1)"

subsection \<open>The book routes\<close>

text \<open>\<^verbatim>\<open>GET /books\<close>: the cached text when the key holds one, else the owner's books of
  the database, cached for 300 seconds. The count of the response is the length of the
  data.\<close>

definition get_books :: "user \<Rightarrow> world \<Rightarrow> response \<times> world" where
  "get_books u w =
     (case redis_get (REDIS_KEYS_userBooks (user_id u)) w of
        (Inl e, w1) \<Rightarrow> (InternalServerError, w1)
      | (Inr (Some cachedBooks), w1) \<Rightarrow> (BooksOk Cache cachedBooks, w1)
      | (Inr None, w1) \<Rightarrow>
          let userBooks = filter (\<lambda>b. book_userId b = user_id u) (booksDatabase w1)
          in (case redis_setex (REDIS_KEYS_userBooks (user_id u)) 300 (VBooks userBooks) w1 of
                (Inl e, w2) \<Rightarrow> (InternalServerError, w2)
              | (Inr x, w2) \<Rightarrow> (BooksOk Database (VBooks userBooks), w2)))"

text \<open>The body of a single book after \<^verbatim>\<open>validateBook\<close>: title and author are strings,
  the other three may be absent.\<close>

record bookFields =
  f_title :: string
  f_author :: string
  f_isbn :: "string option"
  f_publishedYear :: "int option"
  f_genre :: "string option"

definition is_space :: "char \<Rightarrow> bool" where
  "is_space c = (c \<in> set [CHR '' '', CHR 0x09, CHR 0x0A, CHR 0x0B, CHR 0x0C, CHR 0x0D])"

definition trim :: "string \<Rightarrow> string" where
  "trim s = rev (dropWhile is_space (rev (dropWhile is_space s)))"

text \<open>\<^verbatim>\<open>x?.trim() || null\<close> and \<^verbatim>\<open>publishedYear || null\<close>.\<close>

definition trim_or_null :: "string option \<Rightarrow> jsval" where
  "trim_or_null x =
     (case x of None \<Rightarrow> JNull | Some s \<Rightarrow> if trim s = [] then JNull else JStr (trim s))"

definition year_or_null :: "int option \<Rightarrow> jsval" where
  "year_or_null x = (case x of None \<Rightarrow> JNull | Some n \<Rightarrow> if n = 0 then JNull else JNum n)"

definition body_props :: "bookFields \<Rightarrow> (string \<times> jsval) list" where
  "body_props f =
     [(''title'', JStr (trim (f_title f))), (''author'', JStr (trim (f_author f))),
      (''isbn'', trim_or_null (f_isbn f)), (''publishedYear'', year_or_null (f_publishedYear f)),
      (''genre'', trim_or_null (f_genre f))]"

text \<open>\<^verbatim>\<open>POST /books\<close>\<close>

definition post_book :: "user \<Rightarrow> bookFields \<Rightarrow> world \<Rightarrow> response \<times> world" where
  "post_book u f w =
     (case generateId w of
        (i, w1) \<Rightarrow>
          let newBook = \<lparr>book_id = i, book_userId = user_id u, book_createdAt = now w1,
                         book_updatedAt = now w1, book_props = body_props f\<rparr>;
              w2 = w1\<lparr>booksDatabase := booksDatabase w1 @ [newBook]\<rparr>
          in (case redis_del (REDIS_KEYS_userBooks (user_id u)) w2 of
                (Inl e, w3) \<Rightarrow> (InternalServerError, w3)
              | (Inr x, w3) \<Rightarrow> (BookCreated newBook, w3)))"

text \<open>\<^verbatim>\<open>Array.prototype.findIndex\<close>, \<open>None\<close> for -1.\<close>

fun findIndex :: "('a \<Rightarrow> bool) \<Rightarrow> 'a list \<Rightarrow> nat option" where
  "findIndex p [] = None"
| "findIndex p (x # xs) = (if p x then Some 0 else map_option Suc (findIndex p xs))"

text \<open>\<^verbatim>\<open>PUT /books/:id\<close>\<close>

definition put_book :: "user \<Rightarrow> string \<Rightarrow> bookFields \<Rightarrow> world \<Rightarrow> response \<times> world" where
  "put_book u bookId f w =
     (case findIndex (\<lambda>b. book_id b = bookId \<and> book_userId b = user_id u) (booksDatabase w) of
        None \<Rightarrow> (NotFound, w)
      | Some bookIndex \<Rightarrow>
          let old = booksDatabase w ! bookIndex;
              updatedBook = old\<lparr>book_updatedAt := now w,
                 book_props := foldl (\<lambda>ps kv. AList.update (fst kv) (snd kv) ps)
                                 (book_props old) (body_props f)\<rparr>;
              w1 = w\<lparr>booksDatabase := (booksDatabase w)[bookIndex := updatedBook]\<rparr>
          in (case redis_del (REDIS_KEYS_userBooks (user_id u)) w1 of
                (Inl e, w2) \<Rightarrow> (InternalServerError, w2)
              | (Inr x, w2) \<Rightarrow> (BookUpdated updatedBook, w2)))"

text \<open>\<^verbatim>\<open>DELETE /books/:id\<close>\<close>

definition delete_book :: "user \<Rightarrow> string \<Rightarrow> world \<Rightarrow> response \<times> world" where
  "delete_book u bookId w =
     (case findIndex (\<lambda>b. book_id b = bookId \<and> book_userId b = user_id u) (booksDatabase w) of
        None \<Rightarrow> (NotFound, w)
      | Some bookIndex \<Rightarrow>
          let deletedBook = booksDatabase w ! bookIndex;
              w1 = w\<lparr>booksDatabase :=
                      take bookIndex (booksDatabase w) @ drop (Suc bookIndex) (booksDatabase w)\<rparr>
          in (case redis_del (REDIS_KEYS_userBooks (user_id u)) w1 of
                (Inl e, w2) \<Rightarrow> (InternalServerError, w2)
              | (Inr x, w2) \<Rightarrow> (BookDeleted deletedBook, w2)))"

subsection \<open>\<^verbatim>\<open>generateAndSendReports\<close>\<close>

text \<open>\<^verbatim>\<open>path.join(reportsDir, filename)\<close>, with the default directory \<^verbatim>\<open>./reports\<close>.\<close>

definition report_path :: "statusData \<Rightarrow> string" where
  "report_path sd = ''reports/bulk-report-'' @ st_requestId sd @ ''.pdf''"

text \<open>The success rate of the summary, \<^verbatim>\<open>(successCount / totalBooks) * 100\<close>: a division
  by zero does not throw in JavaScript, it gives NaN or Infinity.\<close>

datatype rate = Percent rat | NotANumber | Infinity

definition success_rate :: "statusData \<Rightarrow> rate" where
  "success_rate sd =
     (if totalBooks sd = 0 then (if successCount sd = 0 then NotANumber else Infinity)
      else Percent (of_nat (successCount sd) / of_nat (totalBooks sd) * 100))"

text \<open>\<^verbatim>\<open>generateBulkReport\<close>: the promise resolves with the path of the written file, or
  rejects.\<close>

definition generateBulkReport :: "statusData \<Rightarrow> world \<Rightarrow> (error + string) \<times> world" where
  "generateBulkReport sd w =
     (if io_down w then (Inl IOError, io_tick w)
      else (Inr (report_path sd), io_tick (w\<lparr>files := report_path sd # files w\<rparr>)))"

text \<open>\<^verbatim>\<open>sendReportEmail\<close>: returns once the transport has taken the message, or rethrows.\<close>

definition sendReportEmail ::
  "string \<Rightarrow> string \<Rightarrow> string \<Rightarrow> statusData \<Rightarrow> world \<Rightarrow> (error + unit) \<times> world" where
  "sendReportEmail em un pdfPath sd w =
     (if io_down w then (Inl IOError, io_tick w)
      else (Inr (), io_tick (w\<lparr>outbox := outbox w @
              [\<lparr>mail_to = em, mail_username = un, mail_attachment = pdfPath,
                mail_requestId = st_requestId sd\<rparr>]\<rparr>)))"

definition fs_remove :: "string \<Rightarrow> world \<Rightarrow> (error + unit) \<times> world" where
  "fs_remove p w =
     (if io_down w then (Inl IOError, io_tick w)
      else (Inr (), io_tick (w\<lparr>files := removeAll p (files w)\<rparr>)))"

definition ensureReportsDirectory :: "world \<Rightarrow> (error + unit) \<times> world" where
  "ensureReportsDirectory w =
     (if io_down w then (Inl IOError, io_tick w) else (Inr (), io_tick w))"

text \<open>The body of the \<^verbatim>\<open>try\<close> for one status key, with the results of
  \<open>process_key\<close>. A status key holds a \<open>statusData\<close> in every reachable state
  (\<open>reachable_store_ok\<close> and \<open>status_key_entry\<close> below); on another shape the model
  stops with \<open>ShapeError\<close>.\<close>

definition report_key :: "string \<Rightarrow> world \<Rightarrow> (error + bool) \<times> world" where
  "report_key key w =
     (case redis_get key w of
        (Inl e, w1) \<Rightarrow> (Inl e, w1)
      | (Inr None, w1) \<Rightarrow> (Inr False, w1)
      | (Inr (Some (VStatus sd)), w1) \<Rightarrow>
          (case generateBulkReport sd w1 of
             (Inl e, w2) \<Rightarrow> (Inl e, w2)
           | (Inr filepath, w2) \<Rightarrow>
               (case sendReportEmail (st_userEmail sd) (st_username sd) filepath sd w2 of
                  (Inl e, w3) \<Rightarrow> (Inl e, w3)
                | (Inr x, w3) \<Rightarrow>
                    (case (if pdf_cleanup w3 then fs_remove filepath w3 else (Inr (), w3)) of
                       (Inl e, w4) \<Rightarrow> (Inl e, w4)
                     | (Inr y, w4) \<Rightarrow>
                         (case redis_del key w4 of
                            (Inl e, w5) \<Rightarrow> (Inl e, w5)
                          | (Inr z, w5) \<Rightarrow> (Inr True, w5)))))
      | (Inr (Some other), w1) \<Rightarrow> (Inl ShapeError, w1))"

fun report_keys :: "string list \<Rightarrow> world \<Rightarrow> world" where
  "report_keys [] w = w"
| "report_keys (k # ks) w = report_keys ks (snd (report_key k w))"

definition generateAndSendReports :: "world \<Rightarrow> world" where
  "generateAndSendReports w =
     (case redis_keys allStatusKeys w of
        (Inl e, w1) \<Rightarrow> w1
      | (Inr statusKeys, w1) \<Rightarrow>
          if length statusKeys = 0 then w1
          else (case ensureReportsDirectory w1 of
                  (Inl e, w2) \<Rightarrow> w2
                | (Inr x, w2) \<Rightarrow> report_keys statusKeys w2))"

subsection \<open>\<^verbatim>\<open>GET /books/queue\<close>\<close>

definition expiresIn :: "int \<Rightarrow> expires" where
  "expiresIn t = (if t > 0 then Seconds t else Unknown)"

text \<open>Both keys are read first. With a queue text, \<^verbatim>\<open>parsedQueue.books.length\<close> throws
  on a text without books (the 500 of the \<^verbatim>\<open>catch\<close>). A status key holds a
  \<open>statusData\<close> in every reachable state; on another shape the model answers 500.\<close>

definition get_queue :: "user \<Rightarrow> world \<Rightarrow> response \<times> world" where
  "get_queue u w =
     (case redis_get (REDIS_KEYS_bulkBooks (user_id u)) w of
        (Inl e, w1) \<Rightarrow> (InternalServerError, w1)
      | (Inr queueData, w1) \<Rightarrow>
          (case redis_get (REDIS_KEYS_bulkStatus (user_id u)) w1 of
             (Inl e, w2) \<Rightarrow> (InternalServerError, w2)
           | (Inr statusData, w2) \<Rightarrow>
               (case queueData of
                  Some q \<Rightarrow>
                    (case q of
                       VQueue parsedQueue \<Rightarrow>
                         (case redis_ttl (REDIS_KEYS_bulkBooks (user_id u)) w2 of
                            (Inl e, w3) \<Rightarrow> (InternalServerError, w3)
                          | (Inr queueTtl, w3) \<Rightarrow>
                              (QueueOk (Queued (length (books parsedQueue)) (requestId parsedQueue)
                                 (queuedAt parsedQueue) (expiresIn queueTtl)), w3))
                     | other \<Rightarrow> (InternalServerError, w2))
                | None \<Rightarrow>
                    (case statusData of
                       None \<Rightarrow> (QueueOk NoQueue, w2)
                     | Some s \<Rightarrow>
                         (case s of
                            VStatus parsedStatus \<Rightarrow>
                              (case redis_ttl (REDIS_KEYS_bulkStatus (user_id u)) w2 of
                                 (Inl e, w3) \<Rightarrow> (InternalServerError, w3)
                               | (Inr statusTtl, w3) \<Rightarrow>
                                   (QueueOk (ProcessedAwaitingReport (st_requestId parsedStatus)
                                      (totalBooks parsedStatus) (successCount parsedStatus)
                                      (failCount parsedStatus) (processedAt parsedStatus)
                                      (expiresIn statusTtl)), w3))
                          | other \<Rightarrow> (InternalServerError, w2))))))"

subsection \<open>Time and runs\<close>

text \<open>\<open>n\<close> seconds pass: Redis counts every key down and drops the expired ones.\<close>

definition elapse :: "nat \<Rightarrow> world \<Rightarrow> world" where
  "elapse n w =
     w\<lparr>now := now w + n,
       redis := filter (\<lambda>p. ttl (snd p) > 0)
                  (map (\<lambda>p. (fst p, (snd p)\<lparr>ttl := ttl (snd p) - int n\<rparr>)) (redis w))\<rparr>"

datatype event =
    GetBooks user
  | PostBook user bookFields
  | PutBook user string bookFields
  | DeleteBook user string
  | PostBulk user jsval
  | GetQueue user
  | BulkTick
  | ReportTick
  | Elapse nat

fun step :: "event \<Rightarrow> world \<Rightarrow> world" where
  "step (GetBooks u) w = snd (get_books u w)"
| "step (PostBook u f) w = snd (post_book u f w)"
| "step (PutBook u i f) w = snd (put_book u i f w)"
| "step (DeleteBook u i) w = snd (delete_book u i w)"
| "step (PostBulk u body) w = snd (post_bulk u body w)"
| "step (GetQueue u) w = snd (get_queue u w)"
| "step BulkTick w = processBulkBooks w"
| "step ReportTick w = generateAndSendReports w"
| "step (Elapse n) w = elapse n w"

text \<open>The server starts with an empty Redis database and empty arrays; what the
  outside will answer is arbitrary.\<close>

definition initial :: "world \<Rightarrow> bool" where
  "initial w = (redis w = [] \<and> booksDatabase w = [] \<and> files w = [] \<and> outbox w = [])"

inductive reachable :: "world \<Rightarrow> bool" where
  start: "initial w \<Longrightarrow> reachable w"
| next_event: "reachable w \<Longrightarrow> reachable (step ev w)"

subsection \<open>Well-formed stores\<close>

text \<open>What the writers of the three key families establish: a queue text sits under
  the queue key of the owner it names and holds between 1 and 100 books of that owner;
  a status text sits under the status key of its owner and its counts add up; a list of
  books sits under a cache key. Redis holds one value per key, each with time left.\<close>

definition entry_ok :: "string \<Rightarrow> rvalue \<Rightarrow> bool" where
  "entry_ok k v =
     (case v of
        VQueue d \<Rightarrow>
          k = REDIS_KEYS_bulkBooks (userId d) \<and> 1 \<le> length (books d) \<and> length (books d) \<le> 100 \<and>
          list_all (\<lambda>b. book_userId b = userId d) (books d)
      | VStatus sd \<Rightarrow>
          k = REDIS_KEYS_bulkStatus (st_userId sd) \<and> 1 \<le> totalBooks sd \<and>
          successCount sd + failCount sd = totalBooks sd \<and>
          length (failedBooks sd) = failCount sd
      | VBooks bs \<Rightarrow> prefix ''books:user:'' k)"

definition store_ok :: "world \<Rightarrow> bool" where
  "store_ok w =
     (distinct (map fst (redis w)) \<and>
      (\<forall>k e. map_of (redis w) k = Some e \<longrightarrow> entry_ok k (val e) \<and> 0 < ttl e))"

text \<open>No outside call of the run throws.\<close>

definition no_faults :: "world \<Rightarrow> bool" where
  "no_faults w = (\<forall>i. \<not> io_fails w i)"

subsection \<open>Notions of the statements\<close>

text \<open>The queue texts of an owner in the store.\<close>

definition queue_entries :: "string \<Rightarrow> world \<Rightarrow> (string \<times> entry) list" where
  "queue_entries uid w =
     filter (\<lambda>p. case val (snd p) of VQueue d \<Rightarrow> userId d = uid | VBooks bs \<Rightarrow> False
                 | VStatus sd \<Rightarrow> False) (redis w)"

text \<open>The message \<^verbatim>\<open>sendReportEmail\<close> hands to the transport for a status text.\<close>

definition report_mail :: "statusData \<Rightarrow> email_sent" where
  "report_mail sd =
     \<lparr>mail_to = st_userEmail sd, mail_username = st_username sd,
      mail_attachment = report_path sd, mail_requestId = st_requestId sd\<rparr>"

text \<open>An item passes the test of the validation loop: both reads succeed and give truthy
  values.\<close>

definition has_fields :: "jsval \<Rightarrow> bool" where
  "has_fields b =
     (case js_get b ''title'' of
        Inl e \<Rightarrow> False
      | Inr t \<Rightarrow> truthy t \<and> (case js_get b ''author'' of Inl e \<Rightarrow> False | Inr a \<Rightarrow> truthy a))"

text \<open>What \<^verbatim>\<open>GET /books\<close> must answer from the database for a user.\<close>

definition own_books :: "string \<Rightarrow> world \<Rightarrow> rvalue" where
  "own_books uid w = VBooks (filter (\<lambda>b. book_userId b = uid) (booksDatabase w))"

text \<open>The read of a user right now is not served from the cache: it fails with Redis or
  gives the user's books of the database, and it gives them when Redis answers.\<close>

definition reads_fresh :: "user \<Rightarrow> world \<Rightarrow> bool" where
  "reads_fresh u w =
     ((fst (get_books u w) = InternalServerError \<or>
       fst (get_books u w) = BooksOk Database (own_books (user_id u) w)) \<and>
      (io_fails w (io_ctr w) \<or> io_fails w (io_ctr w + 1) \<or>
       fst (get_books u w) = BooksOk Database (own_books (user_id u) w)))"

text \<open>Every cached list is the owner's list of the database.\<close>

definition coherent :: "world \<Rightarrow> bool" where
  "coherent w =
     (\<forall>uid e. map_of (redis w) (REDIS_KEYS_userBooks uid) = Some e \<longrightarrow> val e = own_books uid w)"

subsection \<open>Example runs\<close>

text \<open>A user, a server that has just started and whose outside calls all succeed (the second
  draw of \<^verbatim>\<open>Math.random()\<close> is below 0.05), and a body of three books.\<close>

definition ann :: user where
  "ann = \<lparr>user_id = ''u1'', user_username = ''ann'', user_email = ''ann@example.com''\<rparr>"

definition quiet_world :: world where
  "quiet_world =
     \<lparr>redis = [], booksDatabase = [], now = 5, uuid = (\<lambda>n. replicate (Suc n) CHR ''i''),
      uuid_ctr = 0, io_fails = (\<lambda>n. False), io_ctr = 0, random_lt = (\<lambda>n. n = 1),
      random_ctr = 0, files = [], outbox = [], pdf_cleanup = True\<rparr>"

definition item :: "string \<Rightarrow> jsval" where
  "item t = JObj [(''title'', JStr t), (''author'', JStr ''a'')]"

definition three_books :: jsval where
  "three_books = JObj [(''books'', JArr [item ''t1'', item ''t2'', item ''t3''])]"

definition ann_status :: statusData where
  "ann_status =
     \<lparr>st_userId = ''u1'', st_username = ''ann'', st_userEmail = ''ann@example.com'',
      st_requestId = ''iiii'', totalBooks = 3, successCount = 2, failCount = 1,
      failedBooks = [\<lparr>fb_title = JStr ''t2'', fb_author = JStr ''a'',
                      fb_error = ''Simulated database error''\<rparr>],
      processedAt = 5, st_queuedAt = 5, status = ''completed''\<rparr>"

definition bob :: user where
  "bob = \<lparr>user_id = ''u2'', user_username = ''bob'', user_email = ''bob@example.com''\<rparr>"

definition cy :: user where
  "cy = \<lparr>user_id = ''u3'', user_username = ''cy'', user_email = ''cy@example.com''\<rparr>"

definition one_book :: jsval where
  "one_book = JObj [(''books'', JArr [item ''t'']) ]"

text \<open>Three owners have queued a batch each; of the calls that follow, the tenth throws:
  it is the \<^verbatim>\<open>SETEX\<close> of the status of the second owner.\<close>

definition three_owners :: world where
  "three_owners =
     step (PostBulk cy one_book) (step (PostBulk bob one_book) (step (PostBulk ann three_books)
       (quiet_world\<lparr>io_fails := (\<lambda>n. n = 9)\<rparr>)))"

definition ann_ack :: ack where
  "ann_ack = \<lparr>ack_requestId = ''iiii'', ack_queuedBooks = 3, ack_queuedAt = 5\<rparr>"

definition ann_ack1 :: ack where
  "ann_ack1 = \<lparr>ack_requestId = ''ii'', ack_queuedBooks = 1, ack_queuedAt = 5\<rparr>"

definition ann_ack2 :: ack where
  "ann_ack2 = \<lparr>ack_requestId = ''iiiiii'', ack_queuedBooks = 3, ack_queuedAt = 5\<rparr>"

text \<open>The quiet server after one submission of three books and one pass of the
  processor: the status of the batch waits for its report.\<close>

definition quiet_processed :: world where
  "quiet_processed = step BulkTick (step (PostBulk ann three_books) quiet_world)"

text \<open>The quiet server with the batch of three processed and a second batch, of one
  book, queued.\<close>

definition quiet_both :: world where
  "quiet_both = step (PostBulk ann one_book) quiet_processed"

text \<open>A server whose fourth outside call throws and whose draws never fail: the batch of
  one book is queued, the first pass adds the book and fails to store the status, the
  second pass runs through.\<close>

definition retry_world :: world where
  "retry_world = quiet_world\<lparr>io_fails := (\<lambda>n. n = 3), random_lt := (\<lambda>n. False)\<rparr>"

definition retry_batch :: bulkData where
  "retry_batch =
     \<lparr>userId = ''u1'', username = ''ann'', userEmail = ''ann@example.com'',
      books = [\<lparr>book_id = ''i'', book_userId = ''u1'', book_createdAt = 5, book_updatedAt = 5,
                book_props = [(''title'', JStr ''t''), (''author'', JStr ''a'')]\<rparr>],
      queuedAt = 5, requestId = ''ii''\<rparr>"

definition retry_queued :: world where
  "retry_queued = step (PostBulk ann one_book) retry_world"

definition retry_twice :: world where
  "retry_twice = step BulkTick (step BulkTick retry_queued)"

text \<open>Single books on the quiet server: one created, then read (which fills the cache).\<close>

definition gatsby :: bookFields where
  "gatsby = \<lparr>f_title = ''The Great Gatsby'', f_author = ''F. Scott Fitzgerald'',
             f_isbn = None, f_publishedYear = Some 1925, f_genre = Some ''Fiction''\<rparr>"

definition gatsby_book :: book where
  "gatsby_book =
     \<lparr>book_id = ''i'', book_userId = ''u1'', book_createdAt = 5, book_updatedAt = 5,
      book_props = body_props gatsby\<rparr>"

definition shelf :: world where
  "shelf = step (PostBook ann gatsby) quiet_world"

definition shelf_cached :: world where
  "shelf_cached = step (GetBooks ann) shelf"

definition quiet_queued :: world where
  "quiet_queued = step (PostBulk ann three_books) quiet_world"

text \<open>Servers on which the batch of three is processed and then the report tick meets a
  failure: of the mail (the eleventh outside call), or of the creation of the reports
  directory (the eighth).\<close>

definition mail_down :: world where
  "mail_down =
     step BulkTick (step (PostBulk ann three_books) (quiet_world\<lparr>io_fails := (\<lambda>n. n = 10)\<rparr>))"

definition dir_down :: world where
  "dir_down =
     step BulkTick (step (PostBulk ann three_books) (quiet_world\<lparr>io_fails := (\<lambda>n. n = 7)\<rparr>))"

section \<open>Properties\<close>

subsection \<open>Keys\<close>


lemma userBooks_inj [simp]: "(REDIS_KEYS_userBooks a = REDIS_KEYS_userBooks b) = (a = b)"
  by (simp add: REDIS_KEYS_userBooks_def)

lemma bulkBooks_inj [simp]: "(REDIS_KEYS_bulkBooks a = REDIS_KEYS_bulkBooks b) = (a = b)"
  by (simp add: REDIS_KEYS_bulkBooks_def)

lemma bulkStatus_inj [simp]: "(REDIS_KEYS_bulkStatus a = REDIS_KEYS_bulkStatus b) = (a = b)"
  by (simp add: REDIS_KEYS_bulkStatus_def)

lemma key_families [simp]:
  "REDIS_KEYS_userBooks a \<noteq> REDIS_KEYS_bulkBooks b"
  "REDIS_KEYS_userBooks a \<noteq> REDIS_KEYS_bulkStatus b"
  "REDIS_KEYS_bulkBooks a \<noteq> REDIS_KEYS_userBooks b"
  "REDIS_KEYS_bulkBooks a \<noteq> REDIS_KEYS_bulkStatus b"
  "REDIS_KEYS_bulkStatus a \<noteq> REDIS_KEYS_userBooks b"
  "REDIS_KEYS_bulkStatus a \<noteq> REDIS_KEYS_bulkBooks b"
  by (simp_all add: REDIS_KEYS_userBooks_def REDIS_KEYS_bulkBooks_def REDIS_KEYS_bulkStatus_def)

lemma allBulkKeys_iff: "allBulkKeys k = (\<exists>u. k = REDIS_KEYS_bulkBooks u)"
  by (auto simp: allBulkKeys_def REDIS_KEYS_bulkBooks_def prefix_def)

lemma allStatusKeys_iff: "allStatusKeys k = (\<exists>u. k = REDIS_KEYS_bulkStatus u)"
  by (auto simp: allStatusKeys_def REDIS_KEYS_bulkStatus_def prefix_def)

lemma cache_prefix_iff: "prefix ''books:user:'' k = (\<exists>u. k = REDIS_KEYS_userBooks u)"
  by (auto simp: REDIS_KEYS_userBooks_def prefix_def)

lemma store_ok_update:
  "store_ok w \<Longrightarrow> entry_ok k v \<Longrightarrow> 0 < t \<Longrightarrow> redis w' = AList.update k \<lparr>val = v, ttl = t\<rparr> (redis w) \<Longrightarrow> store_ok w'"
  by (auto simp: store_ok_def update_conv' distinct_update split: if_splits)

lemma store_ok_delete:
  "store_ok w \<Longrightarrow> redis w' = AList.delete k (redis w) \<Longrightarrow> store_ok w'"
  by (auto simp: store_ok_def delete_conv' distinct_delete split: if_splits)

lemma store_ok_same: "store_ok w \<Longrightarrow> redis w' = redis w \<Longrightarrow> store_ok w'"
  by (simp add: store_ok_def)


lemma process_books_frame:
  "process_books bs t w = (t', w') \<Longrightarrow>
     redis w' = redis w \<and> io_ctr w' = io_ctr w \<and> io_fails w' = io_fails w \<and> now w' = now w \<and>
     uuid w' = uuid w \<and> uuid_ctr w' = uuid_ctr w \<and> files w' = files w \<and> outbox w' = outbox w \<and>
     pdf_cleanup w' = pdf_cleanup w \<and> random_lt w' = random_lt w \<and>
     random_ctr w' = random_ctr w + length bs"
  by (induction bs arbitrary: t w) (auto simp: random_draw_def split: prod.splits bool.splits)

lemma process_books_total:
  "process_books bs t w = (t', w') \<Longrightarrow>
     t_successCount t' + t_failCount t' = t_successCount t + t_failCount t + length bs"
  by (induction bs arbitrary: t w) (force simp: random_draw_def split: prod.splits bool.splits)+

lemma process_books_failed_length:
  "process_books bs t w = (t', w') \<Longrightarrow> length (t_failedBooks t) = t_failCount t \<Longrightarrow>
     length (t_failedBooks t') = t_failCount t'"
  by (induction bs arbitrary: t w) (force simp: random_draw_def split: prod.splits bool.splits)+

lemma store_okD:
  "store_ok w \<Longrightarrow> map_of (redis w) k = Some e \<Longrightarrow> entry_ok k (val e) \<and> 0 < ttl e"
  unfolding store_ok_def by blast

lemma status_of_ok:
  assumes "entry_ok k (VQueue d)"
  shows "entry_ok (REDIS_KEYS_bulkStatus (userId d)) (val (status_of d w))"
proof -
  obtain t' w' where p: "process_books (books d) tally0 (io_tick w) = (t', w')"
    by (cases "process_books (books d) tally0 (io_tick w)")
  have "t_successCount t' + t_failCount t' = length (books d)"
    using process_books_total [OF p] by (simp add: tally0_def)
  moreover have "length (t_failedBooks t') = t_failCount t'"
    using process_books_failed_length [OF p] by (simp add: tally0_def)
  ultimately show ?thesis using assms
    by (simp add: status_of_def p entry_ok_def make_statusData_def)
qed

lemma process_key_queue:
  assumes "map_of (redis w) k = Some e" "val e = VQueue d" "process_key k w = (r, w')"
  shows "(r = Inr True \<and> redis w' = AList.delete k (AList.delete (REDIS_KEYS_userBooks (userId d))
              (AList.update (REDIS_KEYS_bulkStatus (userId d)) (status_of d w) (redis w))))
       \<or> (r = Inl RedisError \<and> (redis w' = redis w
             \<or> redis w' = AList.update (REDIS_KEYS_bulkStatus (userId d)) (status_of d w) (redis w)
             \<or> redis w' = AList.delete (REDIS_KEYS_userBooks (userId d))
              (AList.update (REDIS_KEYS_bulkStatus (userId d)) (status_of d w) (redis w))))"
  using assms
  unfolding process_key_def redis_get_def redis_setex_def redis_del_def status_of_def tally0_def
  by (auto simp: io_tick_def io_down_def dest!: process_books_frame split: prod.splits sum.splits option.splits rvalue.splits if_splits)

lemma process_key_other:
  assumes "process_key k w = (r, w')" "\<forall>e d. map_of (redis w) k = Some e \<longrightarrow> val e \<noteq> VQueue d"
  shows "redis w' = redis w \<and> r \<noteq> Inr True"
  using assms
  unfolding process_key_def redis_get_def
  by (auto simp: io_tick_def io_down_def split: prod.splits sum.splits option.splits rvalue.splits if_splits)

lemma process_key_store_ok:
  assumes "store_ok w" "process_key k w = (r, w')"
  shows "store_ok w'"
proof (cases "\<exists>e d. map_of (redis w) k = Some e \<and> val e = VQueue d")
  case True
  then obtain e d where e: "map_of (redis w) k = Some e" "val e = VQueue d" by blast
  with store_okD [OF assms(1)] have ok: "entry_ok k (VQueue d)" by fastforce
  define w1 where "w1 = w\<lparr>redis := AList.update (REDIS_KEYS_bulkStatus (userId d)) (status_of d w) (redis w)\<rparr>"
  define w2 where "w2 = w1\<lparr>redis := AList.delete (REDIS_KEYS_userBooks (userId d)) (redis w1)\<rparr>"
  define w3 where "w3 = w2\<lparr>redis := AList.delete k (redis w2)\<rparr>"
  have s1: "store_ok w1"
    using store_ok_update [OF assms(1) status_of_ok [OF ok], of 3600 w1 w]
    by (simp add: w1_def status_of_def)
  have s2: "store_ok w2" using store_ok_delete [OF s1, of w2] by (simp add: w2_def)
  have s3: "store_ok w3" using store_ok_delete [OF s2, of w3] by (simp add: w3_def)
  from process_key_queue [OF e assms(2)]
  have "redis w' = redis w \<or> redis w' = redis w1 \<or> redis w' = redis w2 \<or> redis w' = redis w3"
    by (auto simp: w1_def w2_def w3_def)
  with assms(1) s1 s2 s3 show ?thesis by (auto intro: store_ok_same)
next
  case False
  with process_key_other [OF assms(2)] assms(1) show ?thesis
    by (auto intro: store_ok_same)
qed

lemma process_keys_store_ok: "store_ok w \<Longrightarrow> store_ok (process_keys ks w)"
  by (induction ks arbitrary: w) (auto intro: process_key_store_ok [OF _ surjective_pairing])


lemma get_books_redis:
  "get_books u w = (r, w') \<Longrightarrow>
     redis w' = redis w \<or>
     redis w' = AList.update (REDIS_KEYS_userBooks (user_id u))
        \<lparr>val = VBooks (filter (\<lambda>b. book_userId b = user_id u) (booksDatabase w)), ttl = 300\<rparr> (redis w)"
  unfolding get_books_def redis_get_def redis_setex_def
  by (auto simp: io_tick_def io_down_def Let_def split: prod.splits sum.splits option.splits if_splits)

lemma store_ok_same_or_update:
  assumes "store_ok w" "entry_ok k v" "0 < t"
    and "redis w' = redis w \<or> redis w' = AList.update k \<lparr>val = v, ttl = t\<rparr> (redis w)"
  shows "store_ok w'"
  using assms(4)
proof
  assume "redis w' = redis w"
  with assms(1) show ?thesis by (rule store_ok_same)
next
  assume "redis w' = AList.update k \<lparr>val = v, ttl = t\<rparr> (redis w)"
  with assms(1-3) show ?thesis by (rule store_ok_update)
qed

lemma store_ok_same_or_delete:
  assumes "store_ok w" "redis w' = redis w \<or> redis w' = AList.delete k (redis w)"
  shows "store_ok w'"
  using assms(2)
proof
  assume "redis w' = redis w"
  with assms(1) show ?thesis by (rule store_ok_same)
next
  assume "redis w' = AList.delete k (redis w)"
  with assms(1) show ?thesis by (rule store_ok_delete)
qed

lemma get_books_store_ok:
  assumes "store_ok w"
  shows "store_ok (snd (get_books u w))"
proof (rule store_ok_same_or_update [OF assms _ _ get_books_redis [OF surjective_pairing]])
  show "entry_ok (REDIS_KEYS_userBooks (user_id u))
          (VBooks (filter (\<lambda>b. book_userId b = user_id u) (booksDatabase w)))"
    by (simp add: entry_ok_def REDIS_KEYS_userBooks_def)
qed simp

lemma post_book_redis:
  "post_book u f w = (r, w') \<Longrightarrow>
     redis w' = redis w \<or> redis w' = AList.delete (REDIS_KEYS_userBooks (user_id u)) (redis w)"
  unfolding post_book_def redis_del_def generateId_def
  by (auto simp: io_tick_def io_down_def Let_def split: prod.splits sum.splits if_splits)

lemma put_book_redis:
  "put_book u i f w = (r, w') \<Longrightarrow>
     redis w' = redis w \<or> redis w' = AList.delete (REDIS_KEYS_userBooks (user_id u)) (redis w)"
  unfolding put_book_def redis_del_def
  by (auto simp: io_tick_def io_down_def Let_def split: prod.splits sum.splits option.splits if_splits)

lemma delete_book_redis:
  "delete_book u i w = (r, w') \<Longrightarrow>
     redis w' = redis w \<or> redis w' = AList.delete (REDIS_KEYS_userBooks (user_id u)) (redis w)"
  unfolding delete_book_def redis_del_def
  by (auto simp: io_tick_def io_down_def Let_def split: prod.splits sum.splits option.splits if_splits)

lemma get_queue_redis: "get_queue u w = (r, w') \<Longrightarrow> redis w' = redis w"
  unfolding get_queue_def redis_get_def redis_ttl_def
  by (auto simp: io_tick_def io_down_def split: prod.splits sum.splits option.splits rvalue.splits if_splits)

lemma length_stamp_books [simp]: "length (stamp_books u t ids c bs) = length bs"
  by (induction bs arbitrary: c) auto

lemma stamp_books_owner: "list_all (\<lambda>b. book_userId b = u) (stamp_books u t ids c bs)"
  by (induction bs arbitrary: c) auto

lemma post_bulk_redis:
  "post_bulk u body w = (r, w') \<Longrightarrow>
     redis w' = redis w \<or>
     (\<exists>bs. js_get body ''books'' = Inr (JArr bs) \<and> bs \<noteq> [] \<and> length bs \<le> 100 \<and>
        validate_books 0 bs = Inr None \<and>
        redis w' = AList.update (REDIS_KEYS_bulkBooks (user_id u))
          \<lparr>val = VQueue (make_bulkData u bs w), ttl = 7200\<rparr> (redis w))"
  unfolding post_bulk_def redis_setex_def
  by (auto simp: io_tick_def io_down_def Let_def make_bulkData_def
      split: prod.splits sum.splits option.splits jsval.splits if_splits)

lemma make_bulkData_ok:
  "bs \<noteq> [] \<Longrightarrow> length bs \<le> 100 \<Longrightarrow>
     entry_ok (REDIS_KEYS_bulkBooks (user_id u)) (VQueue (make_bulkData u bs w))"
  by (cases bs) (simp_all add: entry_ok_def make_bulkData_def stamp_books_owner)

lemma post_bulk_store_ok:
  assumes "store_ok w"
  shows "store_ok (snd (post_bulk u body w))"
proof -
  from post_bulk_redis [OF surjective_pairing, of u body w]
  consider "redis (snd (post_bulk u body w)) = redis w"
    | bs where "bs \<noteq> []" "length bs \<le> 100"
        "redis (snd (post_bulk u body w)) = AList.update (REDIS_KEYS_bulkBooks (user_id u))
          \<lparr>val = VQueue (make_bulkData u bs w), ttl = 7200\<rparr> (redis w)"
    by blast
  then show ?thesis
  proof cases
    case 1
    with assms show ?thesis by (rule store_ok_same)
  next
    case 2
    from store_ok_update [OF assms make_bulkData_ok [OF 2(1,2)] _ 2(3)] show ?thesis by simp
  qed
qed

lemma report_key_redis:
  "report_key k w = (r, w') \<Longrightarrow> redis w' = redis w \<or> redis w' = AList.delete k (redis w)"
  unfolding report_key_def redis_get_def redis_del_def generateBulkReport_def sendReportEmail_def
    fs_remove_def
  by (auto simp: io_tick_def io_down_def split: prod.splits sum.splits option.splits rvalue.splits if_splits)

lemma report_keys_store_ok: "store_ok w \<Longrightarrow> store_ok (report_keys ks w)"
proof (induction ks arbitrary: w)
  case Nil
  then show ?case by simp
next
  case (Cons k ks)
  have "store_ok (snd (report_key k w))"
    by (rule store_ok_same_or_delete [OF Cons.prems report_key_redis [OF surjective_pairing]])
  then show ?case by (simp add: Cons.IH)
qed

lemma processBulkBooks_store_ok:
  assumes "store_ok w"
  shows "store_ok (processBulkBooks w)"
proof -
  have t: "store_ok (io_tick w)" using assms by (rule store_ok_same) (simp add: io_tick_def)
  show ?thesis
    unfolding processBulkBooks_def redis_keys_def
    by (simp add: t process_keys_store_ok)
qed

lemma generateAndSendReports_store_ok:
  assumes "store_ok w"
  shows "store_ok (generateAndSendReports w)"
proof -
  have t: "store_ok (io_tick w)" using assms by (rule store_ok_same) (simp add: io_tick_def)
  have tt: "store_ok (io_tick (io_tick w))" using t by (rule store_ok_same) (simp add: io_tick_def)
  show ?thesis
    unfolding generateAndSendReports_def redis_keys_def ensureReportsDirectory_def
    by (simp add: t tt report_keys_store_ok)
qed

lemma elapse_store_ok:
  assumes ok: "store_ok w"
  shows "store_ok (elapse n w)"
proof -
  define f where "f = (\<lambda>p::string \<times> entry. (fst p, (snd p)\<lparr>ttl := ttl (snd p) - int n\<rparr>))"
  define xs where "xs = filter (\<lambda>p. ttl (snd p) > 0) (map f (redis w))"
  have r: "redis (elapse n w) = xs" by (simp add: elapse_def xs_def f_def)
  have "fst \<circ> f = fst" by (simp add: f_def fun_eq_iff)
  then have "map fst (map f (redis w)) = map fst (redis w)" by simp
  with ok have "distinct (map fst (map f (redis w)))" by (simp only: store_ok_def)
  then have d: "distinct (map fst xs)" unfolding xs_def by (rule distinct_map_filter)
  have "entry_ok k (val e) \<and> 0 < ttl e" if "map_of xs k = Some e" for k e
  proof -
    from that have "(k, e) \<in> set xs" by (rule map_of_SomeD)
    then have pos: "0 < ttl e" and "(k, e) \<in> f ` set (redis w)" by (simp_all add: xs_def)
    then obtain p where p: "p \<in> set (redis w)" "(k, e) = f p" by blast
    obtain k0 e0 where p0: "p = (k0, e0)" by (cases p)
    from p p0 have k: "k0 = k" and e: "e = e0\<lparr>ttl := ttl e0 - int n\<rparr>" by (simp_all add: f_def)
    from ok have "distinct (map fst (redis w))" by (simp only: store_ok_def)
    with p(1) p0 k have "map_of (redis w) k = Some e0" by simp
    from store_okD [OF ok this] have "entry_ok k (val e0)" by simp
    with e pos show ?thesis by simp
  qed
  with d show ?thesis by (simp add: store_ok_def r)
qed

lemma step_store_ok:
  assumes "store_ok w"
  shows "store_ok (step ev w)"
proof (cases ev)
  case (GetBooks u)
  then show ?thesis by (simp add: get_books_store_ok [OF assms])
next
  case (PostBook u f)
  then show ?thesis
    by (simp add: store_ok_same_or_delete [OF assms post_book_redis [OF surjective_pairing]])
next
  case (PutBook u i f)
  then show ?thesis
    by (simp add: store_ok_same_or_delete [OF assms put_book_redis [OF surjective_pairing]])
next
  case (DeleteBook u i)
  then show ?thesis
    by (simp add: store_ok_same_or_delete [OF assms delete_book_redis [OF surjective_pairing]])
next
  case (PostBulk u body)
  then show ?thesis by (simp add: post_bulk_store_ok [OF assms])
next
  case (GetQueue u)
  then show ?thesis
    by (simp add: store_ok_same [OF assms get_queue_redis [OF surjective_pairing]])
next
  case BulkTick
  then show ?thesis by (simp add: processBulkBooks_store_ok [OF assms])
next
  case ReportTick
  then show ?thesis by (simp add: generateAndSendReports_store_ok [OF assms])
next
  case (Elapse n)
  then show ?thesis by (simp add: elapse_store_ok [OF assms])
qed

lemma reachable_store_ok: "reachable w \<Longrightarrow> store_ok w"
proof (induction rule: reachable.induct)
  case (start w)
  then show ?case by (simp add: initial_def store_ok_def)
next
  case (next_event w ev)
  then show ?case by (simp add: step_store_ok)
qed

subsection \<open>Evaluating the example runs\<close>

lemmas ex_defs = ann_def quiet_world_def item_def three_books_def

lemmas run_defs = post_bulk_def processBulkBooks_def process_key_def redis_get_def redis_setex_def
  redis_del_def redis_keys_def redis_ttl_def io_down_def io_tick_def make_bulkData_def
  make_statusData_def tally0_def random_draw_def allBulkKeys_def allStatusKeys_def
  REDIS_KEYS_bulkBooks_def REDIS_KEYS_bulkStatus_def REDIS_KEYS_userBooks_def stamped_def
  book_get_def

lemma quiet_reach: "reachable (step BulkTick (step (PostBulk ann three_books) quiet_world))"
  by (intro reachable.intros) (simp add: initial_def quiet_world_def)

lemma quiet_redis:
  "redis (step BulkTick (step (PostBulk ann three_books) quiet_world)) =
     [(''bulk_status:user:u1'', \<lparr>val = VStatus ann_status, ttl = 3600\<rparr>)]"
  by (simp add: ex_defs run_defs ann_status_def)

subsection \<open>The loop over the books of a batch\<close>

lemma filter_upt_Suc:
  "filter P [0..<Suc n] = (if P 0 then [0] else []) @ map Suc (filter (\<lambda>i. P (Suc i)) [0..<n])"
proof -
  have "[0..<Suc n] = 0 # map Suc [0..<n]"
    by (simp add: upt_conv_Cons map_Suc_upt del: upt_Suc)
  then show ?thesis by (simp add: filter_map comp_def del: upt_Suc)
qed

lemma process_books_outcome:
  "process_books bs t w = (t', w') \<Longrightarrow>
     t_failedBooks t' = t_failedBooks t @
        map (\<lambda>i. \<lparr>fb_title = book_get (bs ! i) ''title'', fb_author = book_get (bs ! i) ''author'',
                  fb_error = ''Simulated database error''\<rparr>)
          (filter (\<lambda>i. random_lt w (random_ctr w + i)) [0..<length bs]) \<and>
     booksDatabase w' = booksDatabase w @
        map (\<lambda>i. bs ! i) (filter (\<lambda>i. \<not> random_lt w (random_ctr w + i)) [0..<length bs])"
proof (induction bs arbitrary: t w)
  case Nil
  then show ?case by simp
next
  case (Cons b bs)
  show ?case
  proof (cases "random_lt w (random_ctr w)")
    case True
    with Cons.prems have "process_books bs
            (t\<lparr>t_failCount := t_failCount t + 1,
               t_failedBooks := t_failedBooks t @
                 [\<lparr>fb_title = book_get b ''title'', fb_author = book_get b ''author'',
                   fb_error = ''Simulated database error''\<rparr>]\<rparr>) (w\<lparr>random_ctr := Suc (random_ctr w)\<rparr>) = (t', w')"
      by (simp add: random_draw_def)
    from Cons.IH [OF this] True show ?thesis
      by (simp add: filter_upt_Suc comp_def del: upt_Suc)
  next
    case False
    with Cons.prems have "process_books bs (t\<lparr>t_successCount := t_successCount t + 1\<rparr>)
            (w\<lparr>random_ctr := Suc (random_ctr w), booksDatabase := booksDatabase w @ [b]\<rparr>) = (t', w')"
      by (simp add: random_draw_def)
    from Cons.IH [OF this] False show ?thesis
      by (simp add: filter_upt_Suc comp_def del: upt_Suc)
  qed
qed

lemma process_books_tallies:
  "process_books bs t w = (t', w') \<Longrightarrow>
     t_failCount t' = t_failCount t + length (filter (\<lambda>i. random_lt w (random_ctr w + i)) [0..<length bs]) \<and>
     t_successCount t' = t_successCount t + length (filter (\<lambda>i. \<not> random_lt w (random_ctr w + i)) [0..<length bs])"
proof (induction bs arbitrary: t w)
  case Nil
  then show ?case by simp
next
  case (Cons b bs)
  show ?case
  proof (cases "random_lt w (random_ctr w)")
    case True
    with Cons.prems have "process_books bs
            (t\<lparr>t_failCount := t_failCount t + 1,
               t_failedBooks := t_failedBooks t @
                 [\<lparr>fb_title = book_get b ''title'', fb_author = book_get b ''author'',
                   fb_error = ''Simulated database error''\<rparr>]\<rparr>) (w\<lparr>random_ctr := Suc (random_ctr w)\<rparr>) = (t', w')"
      by (simp add: random_draw_def)
    from Cons.IH [OF this] True show ?thesis
      by (simp add: filter_upt_Suc comp_def del: upt_Suc)
  next
    case False
    with Cons.prems have "process_books bs (t\<lparr>t_successCount := t_successCount t + 1\<rparr>)
            (w\<lparr>random_ctr := Suc (random_ctr w), booksDatabase := booksDatabase w @ [b]\<rparr>) = (t', w')"
      by (simp add: random_draw_def)
    from Cons.IH [OF this] False show ?thesis
      by (simp add: filter_upt_Suc comp_def del: upt_Suc)
  qed
qed

subsection \<open>A pass of the batch processor, key by key\<close>

lemma process_key_frame:
  "process_key k w = (r, w') \<Longrightarrow>
     io_fails w' = io_fails w \<and> uuid w' = uuid w \<and> uuid_ctr w' = uuid_ctr w \<and> now w' = now w \<and>
     files w' = files w \<and> outbox w' = outbox w \<and> random_lt w' = random_lt w \<and>
     pdf_cleanup w' = pdf_cleanup w"
  unfolding process_key_def redis_get_def redis_setex_def redis_del_def
  by (auto simp: io_tick_def io_down_def dest!: process_books_frame
      split: prod.splits sum.splits option.splits rvalue.splits if_splits)

lemma process_keys_io_fails [simp]: "io_fails (process_keys ks w) = io_fails w"
  by (induction ks arbitrary: w) (simp_all add: process_key_frame [OF surjective_pairing])

lemma process_keys_append: "process_keys (xs @ ys) w = process_keys ys (process_keys xs w)"
  by (induction xs arbitrary: w) simp_all

lemma process_key_result:
  assumes "map_of (redis w) k = Some e" "val e = VQueue d"
  shows "fst (process_key k w) =
     (if io_fails w (io_ctr w) \<or> io_fails w (io_ctr w + 1) \<or> io_fails w (io_ctr w + 2) \<or>
         io_fails w (io_ctr w + 3)
      then Inl RedisError else Inr True)"
  using assms
  unfolding process_key_def redis_get_def redis_setex_def redis_del_def
  by (auto simp: io_tick_def io_down_def numeral_2_eq_2 numeral_3_eq_3 dest!: process_books_frame
      split: prod.splits sum.splits option.splits rvalue.splits if_splits)

lemma process_key_queue_map:
  assumes "map_of (redis w) k = Some e" "val e = VQueue d" "process_key k w = (r, w')"
  shows "(r = Inr True \<and> map_of (redis w') = (map_of (redis w))
             (REDIS_KEYS_bulkStatus (userId d) \<mapsto> status_of d w,
              REDIS_KEYS_userBooks (userId d) := None, k := None))
       \<or> (r = Inl RedisError \<and> (map_of (redis w') = map_of (redis w)
             \<or> map_of (redis w') = (map_of (redis w))(REDIS_KEYS_bulkStatus (userId d) \<mapsto> status_of d w)
             \<or> map_of (redis w') = (map_of (redis w))
             (REDIS_KEYS_bulkStatus (userId d) \<mapsto> status_of d w,
              REDIS_KEYS_userBooks (userId d) := None)))"
  using process_key_queue [OF assms]
  by (auto simp: update_conv' delete_conv')

lemma process_key_queue_key:
  assumes "allBulkKeys x"
  shows "map_of (redis (snd (process_key k w))) x = map_of (redis w) x \<or>
         (x = k \<and> fst (process_key k w) = Inr True \<and> map_of (redis (snd (process_key k w))) x = None)"
proof (cases "\<exists>e d. map_of (redis w) k = Some e \<and> val e = VQueue d")
  case True
  then obtain e d where e: "map_of (redis w) k = Some e" "val e = VQueue d" by blast
  from assms obtain u where x: "x = REDIS_KEYS_bulkBooks u" by (auto simp: allBulkKeys_iff)
  from process_key_queue_map [OF e surjective_pairing] show ?thesis
    by (auto simp: x split: if_splits)
next
  case False
  with process_key_other [OF surjective_pairing, where k = k and w = w] show ?thesis by simp
qed

lemma process_keys_queue_untouched:
  "allBulkKeys x \<Longrightarrow> x \<notin> set ks \<Longrightarrow> map_of (redis (process_keys ks w)) x = map_of (redis w) x"
proof (induction ks arbitrary: w)
  case Nil
  then show ?case by simp
next
  case (Cons k ks)
  from Cons.prems process_key_queue_key [OF Cons.prems(1), of k w]
  have "map_of (redis (snd (process_key k w))) x = map_of (redis w) x" by auto
  with Cons show ?case by simp
qed

lemma process_key_status_key:
  assumes "store_ok w" "k \<noteq> REDIS_KEYS_bulkBooks u"
  shows "map_of (redis (snd (process_key k w))) (REDIS_KEYS_bulkStatus u) =
         map_of (redis w) (REDIS_KEYS_bulkStatus u)"
proof (cases "\<exists>e d. map_of (redis w) k = Some e \<and> val e = VQueue d")
  case True
  then obtain e d where e: "map_of (redis w) k = Some e" "val e = VQueue d" by blast
  from store_okD [OF assms(1) e(1)] e(2) have k: "k = REDIS_KEYS_bulkBooks (userId d)"
    by (simp add: entry_ok_def)
  with assms(2) have "userId d \<noteq> u" by auto
  with process_key_queue_map [OF e surjective_pairing] k show ?thesis
    by auto
next
  case False
  with process_key_other [OF surjective_pairing, where k = k and w = w] show ?thesis by simp
qed

lemma process_keys_status_untouched:
  "store_ok w \<Longrightarrow> REDIS_KEYS_bulkBooks u \<notin> set ks \<Longrightarrow>
     map_of (redis (process_keys ks w)) (REDIS_KEYS_bulkStatus u) =
     map_of (redis w) (REDIS_KEYS_bulkStatus u)"
proof (induction ks arbitrary: w)
  case Nil
  then show ?case by simp
next
  case (Cons k ks)
  from Cons.prems have k: "k \<noteq> REDIS_KEYS_bulkBooks u" by auto
  have ok: "store_ok (snd (process_key k w))"
    by (rule process_key_store_ok [OF Cons.prems(1) surjective_pairing])
  from Cons.IH [OF ok] Cons.prems process_key_status_key [OF Cons.prems(1) k] show ?case by simp
qed

lemma process_key_cache_absent:
  assumes "map_of (redis w) (REDIS_KEYS_userBooks u) = None"
  shows "map_of (redis (snd (process_key k w))) (REDIS_KEYS_userBooks u) = None"
proof (cases "\<exists>e d. map_of (redis w) k = Some e \<and> val e = VQueue d")
  case True
  then obtain e d where e: "map_of (redis w) k = Some e" "val e = VQueue d" by blast
  from process_key_queue_map [OF e surjective_pairing] assms show ?thesis
    by auto
next
  case False
  with process_key_other [OF surjective_pairing, where k = k and w = w] assms show ?thesis by simp
qed

lemma process_keys_cache_absent:
  "map_of (redis w) (REDIS_KEYS_userBooks u) = None \<Longrightarrow>
     map_of (redis (process_keys ks w)) (REDIS_KEYS_userBooks u) = None"
  by (induction ks arbitrary: w) (simp_all add: process_key_cache_absent)

text \<open>One key of a pass, whatever happens to the keys before and after it.\<close>

lemma tick_key:
  assumes ok: "store_ok w" and dist: "distinct ks" and i: "i < length ks"
    and e: "map_of (redis w) (ks ! i) = Some e" "val e = VQueue d"
  defines "wi \<equiv> process_keys (take i ks) w"
  defines "r \<equiv> fst (process_key (ks ! i) wi)"
  defines "we \<equiv> process_keys ks w"
  shows "map_of (redis wi) (ks ! i) = Some e"
    and "r = (if io_fails w (io_ctr wi) \<or> io_fails w (io_ctr wi + 1) \<or> io_fails w (io_ctr wi + 2) \<or>
                io_fails w (io_ctr wi + 3) then Inl RedisError else Inr True)"
    and "r = Inr True \<Longrightarrow>
           map_of (redis we) (ks ! i) = None \<and>
           map_of (redis we) (REDIS_KEYS_bulkStatus (userId d)) = Some (status_of d wi) \<and>
           map_of (redis we) (REDIS_KEYS_userBooks (userId d)) = None"
    and "r \<noteq> Inr True \<Longrightarrow>
           map_of (redis we) (ks ! i) = Some e \<and>
           (map_of (redis we) (REDIS_KEYS_bulkStatus (userId d)) =
              map_of (redis w) (REDIS_KEYS_bulkStatus (userId d)) \<or>
            map_of (redis we) (REDIS_KEYS_bulkStatus (userId d)) = Some (status_of d wi))"
proof -
  define k where "k = ks ! i"
  define wk where "wk = snd (process_key k wi)"
  have kq: "k = REDIS_KEYS_bulkBooks (userId d)"
    using store_okD [OF ok e(1)] e(2) by (simp add: entry_ok_def k_def)
  then have bulk: "allBulkKeys k" by (auto simp: allBulkKeys_iff)
  have ks: "ks = take i ks @ k # drop (Suc i) ks"
    using i by (simp add: k_def id_take_nth_drop)
  from dist have "distinct (take i ks @ k # drop (Suc i) ks)" using ks by simp
  then have notin: "k \<notin> set (take i ks)" "k \<notin> set (drop (Suc i) ks)" by auto
  have "process_keys ks w = process_keys (take i ks @ k # drop (Suc i) ks) w"
    by (rule arg_cong [where f = "\<lambda>x. process_keys x w", OF ks])
  then have we: "we = process_keys (drop (Suc i) ks) wk"
    unfolding we_def wk_def wi_def by (simp add: process_keys_append)
  have ei: "map_of (redis wi) k = Some e"
    using process_keys_queue_untouched [OF bulk notin(1), of w] e(1) by (simp add: wi_def k_def)
  then show "map_of (redis wi) (ks ! i) = Some e" by (simp add: k_def)
  have fl: "io_fails wi = io_fails w" by (simp add: wi_def)
  show "r = (if io_fails w (io_ctr wi) \<or> io_fails w (io_ctr wi + 1) \<or> io_fails w (io_ctr wi + 2) \<or>
                io_fails w (io_ctr wi + 3) then Inl RedisError else Inr True)"
    using process_key_result [OF ei e(2)] by (simp add: r_def k_def fl)
  have oki: "store_ok wi" unfolding wi_def by (rule process_keys_store_ok [OF ok])
  have okk: "store_ok wk" unfolding wk_def by (rule process_key_store_ok [OF oki surjective_pairing])
  have st_pre: "map_of (redis wi) (REDIS_KEYS_bulkStatus (userId d)) =
      map_of (redis w) (REDIS_KEYS_bulkStatus (userId d))"
    using process_keys_status_untouched [OF ok, of "userId d" "take i ks"] notin(1)
    by (simp add: wi_def kq)
  have st_post: "map_of (redis we) (REDIS_KEYS_bulkStatus (userId d)) =
      map_of (redis wk) (REDIS_KEYS_bulkStatus (userId d))"
    using process_keys_status_untouched [OF okk, of "userId d" "drop (Suc i) ks"] notin(2)
    by (simp add: we kq)
  have q_post: "map_of (redis we) k = map_of (redis wk) k"
    using process_keys_queue_untouched [OF bulk notin(2), of wk] by (simp add: we)
  have step: "(r = Inr True \<and> map_of (redis wk) = (map_of (redis wi))
             (REDIS_KEYS_bulkStatus (userId d) \<mapsto> status_of d wi,
              REDIS_KEYS_userBooks (userId d) := None, k := None))
       \<or> (r = Inl RedisError \<and> (map_of (redis wk) = map_of (redis wi)
             \<or> map_of (redis wk) = (map_of (redis wi))(REDIS_KEYS_bulkStatus (userId d) \<mapsto> status_of d wi)
             \<or> map_of (redis wk) = (map_of (redis wi))
             (REDIS_KEYS_bulkStatus (userId d) \<mapsto> status_of d wi,
              REDIS_KEYS_userBooks (userId d) := None)))"
    using process_key_queue_map [OF ei e(2), of r wk] by (simp add: r_def wk_def k_def)
  {
    assume t: "r = Inr True"
    with step have m: "map_of (redis wk) = (map_of (redis wi))
             (REDIS_KEYS_bulkStatus (userId d) \<mapsto> status_of d wi,
              REDIS_KEYS_userBooks (userId d) := None, k := None)" by auto
    have c: "map_of (redis wk) (REDIS_KEYS_userBooks (userId d)) = None" by (simp add: m kq)
    have "map_of (redis we) (REDIS_KEYS_userBooks (userId d)) = None"
      unfolding we by (rule process_keys_cache_absent [OF c])
    moreover have "map_of (redis we) k = None" by (simp add: q_post m)
    moreover have "map_of (redis we) (REDIS_KEYS_bulkStatus (userId d)) = Some (status_of d wi)"
      by (simp add: st_post m kq)
    ultimately show "map_of (redis we) (ks ! i) = None \<and>
           map_of (redis we) (REDIS_KEYS_bulkStatus (userId d)) = Some (status_of d wi) \<and>
           map_of (redis we) (REDIS_KEYS_userBooks (userId d)) = None"
      by (simp add: k_def)
  }
  {
    assume "r \<noteq> Inr True"
    with step have m: "map_of (redis wk) = map_of (redis wi)
             \<or> map_of (redis wk) = (map_of (redis wi))(REDIS_KEYS_bulkStatus (userId d) \<mapsto> status_of d wi)
             \<or> map_of (redis wk) = (map_of (redis wi))
             (REDIS_KEYS_bulkStatus (userId d) \<mapsto> status_of d wi,
              REDIS_KEYS_userBooks (userId d) := None)" by auto
    then have "map_of (redis wk) k = Some e" using ei by (auto simp: kq)
    moreover from m have "map_of (redis wk) (REDIS_KEYS_bulkStatus (userId d)) =
              map_of (redis wi) (REDIS_KEYS_bulkStatus (userId d)) \<or>
            map_of (redis wk) (REDIS_KEYS_bulkStatus (userId d)) = Some (status_of d wi)"
      by auto
    ultimately show "map_of (redis we) (ks ! i) = Some e \<and>
           (map_of (redis we) (REDIS_KEYS_bulkStatus (userId d)) =
              map_of (redis w) (REDIS_KEYS_bulkStatus (userId d)) \<or>
            map_of (redis we) (REDIS_KEYS_bulkStatus (userId d)) = Some (status_of d wi))"
      by (simp add: st_post st_pre q_post k_def [symmetric])
  }
qed

subsection \<open>A whole pass of the batch processor\<close>

lemma bulk_key_entry:
  assumes "store_ok w" "allBulkKeys k" "map_of (redis w) k = Some e"
  shows "\<exists>d. val e = VQueue d"
  using store_okD [OF assms(1,3)] assms(2)
  by (cases "val e") (auto simp: entry_ok_def allBulkKeys_iff cache_prefix_iff)

lemma scanned_keys:
  assumes "store_ok w" "i < length (filter allBulkKeys (map fst (redis w)))"
  shows "\<exists>e d. map_of (redis w) (filter allBulkKeys (map fst (redis w)) ! i) = Some e \<and> val e = VQueue d"
proof -
  let ?ks = "filter allBulkKeys (map fst (redis w))"
  from assms(2) have "?ks ! i \<in> set ?ks" by (rule nth_mem)
  then have b: "allBulkKeys (?ks ! i)" and "?ks ! i \<in> fst ` set (redis w)" by auto
  then obtain e where "(?ks ! i, e) \<in> set (redis w)" by force
  with assms(1) have e: "map_of (redis w) (?ks ! i) = Some e" by (simp add: store_ok_def)
  from bulk_key_entry [OF assms(1) b e] e show ?thesis by blast
qed

lemma processBulkBooks_scan:
  assumes "\<not> io_down w"
  shows "processBulkBooks w = process_keys (filter allBulkKeys (map fst (redis w))) (io_tick w)"
proof -
  define ks where "ks = filter allBulkKeys (map fst (redis w))"
  have "processBulkBooks w = process_keys ks (io_tick w)"
    unfolding processBulkBooks_def redis_keys_def ks_def [symmetric] using assms
    by (cases ks) simp_all
  then show ?thesis by (simp only: ks_def)
qed

lemma store_ok_io_tick: "store_ok w \<Longrightarrow> store_ok (io_tick w)"
  by (simp add: store_ok_def io_tick_def)

lemma three_owners_reach: "reachable three_owners"
  unfolding three_owners_def
  by (intro reachable.intros) (simp add: initial_def quiet_world_def)

lemma three_owners_redis:
  "map fst (redis three_owners) = [''bulk_books:user:u1'', ''bulk_books:user:u2'', ''bulk_books:user:u3'']"
  by (simp add: three_owners_def bob_def cy_def one_book_def ex_defs run_defs)

lemma three_owners_tick:
  "map fst (redis (processBulkBooks three_owners)) =
     [''bulk_books:user:u2'', ''bulk_status:user:u1'', ''bulk_status:user:u3'']"
  by (simp add: three_owners_def bob_def cy_def one_book_def ex_defs run_defs)

lemma three_owners_down: "\<not> io_down three_owners"
  by (simp add: three_owners_def bob_def cy_def one_book_def ex_defs run_defs)

lemma three_owners_second:
  "fst (process_key ''bulk_books:user:u2''
         (process_keys [''bulk_books:user:u1''] (io_tick three_owners))) = Inl RedisError"
  by (simp add: three_owners_def bob_def cy_def one_book_def ex_defs run_defs)

lemma status_of_props:
  "\<exists>sd. status_of d w = \<lparr>val = VStatus sd, ttl = 3600\<rparr> \<and> st_requestId sd = requestId d \<and>
     st_userId sd = userId d \<and> totalBooks sd = length (books d) \<and>
     successCount sd + failCount sd = totalBooks sd"
proof -
  obtain t' w' where p: "process_books (books d) tally0 (io_tick w) = (t', w')"
    by (cases "process_books (books d) tally0 (io_tick w)")
  have "t_successCount t' + t_failCount t' = length (books d)"
    using process_books_total [OF p] by (simp add: tally0_def)
  then show ?thesis by (simp add: status_of_def p make_statusData_def)
qed

lemma post_bulk_accepted:
  assumes "post_bulk u body w = (Accepted a, w1)"
  shows "\<exists>bs. js_get body ''books'' = Inr (JArr bs) \<and> bs \<noteq> [] \<and> length bs \<le> 100 \<and>
     validate_books 0 bs = Inr None \<and> \<not> io_down w \<and>
     redis w1 = AList.update (REDIS_KEYS_bulkBooks (user_id u))
        \<lparr>val = VQueue (make_bulkData u bs w), ttl = 7200\<rparr> (redis w) \<and>
     a = \<lparr>ack_requestId = requestId (make_bulkData u bs w), ack_queuedBooks = length bs,
          ack_queuedAt = queuedAt (make_bulkData u bs w)\<rparr> \<and>
     io_fails w1 = io_fails w \<and> booksDatabase w1 = booksDatabase w"
  using assms unfolding post_bulk_def redis_setex_def
  by (auto simp: io_tick_def io_down_def Let_def
      split: prod.splits sum.splits option.splits jsval.splits if_splits)

text \<open>The status of an owner after a pass that starts with a queue text of theirs.\<close>

lemma tick_status:
  assumes ok: "store_ok w" and e: "map_of (redis w) (REDIS_KEYS_bulkBooks o1) = Some e" "val e = VQueue d"
  defines "st \<equiv> map_of (redis (processBulkBooks w)) (REDIS_KEYS_bulkStatus o1)"
  defines "good \<equiv> (\<exists>sd. st = Some \<lparr>val = VStatus sd, ttl = 3600\<rparr> \<and> st_requestId sd = requestId d \<and>
     totalBooks sd = length (books d) \<and> successCount sd + failCount sd = totalBooks sd)"
  shows "st = map_of (redis w) (REDIS_KEYS_bulkStatus o1) \<or> good"
    and "no_faults w \<Longrightarrow> good"
proof -
  have od: "userId d = o1" using store_okD [OF ok e(1)] e(2) by (simp add: entry_ok_def)
  have main: "(st = map_of (redis w) (REDIS_KEYS_bulkStatus o1) \<and> \<not> no_faults w) \<or> good"
  proof (cases "io_down w")
    case True
    then have "processBulkBooks w = io_tick w" by (simp add: processBulkBooks_def redis_keys_def)
    moreover from True have "\<not> no_faults w" by (auto simp: no_faults_def io_down_def)
    ultimately show ?thesis by (simp add: st_def io_tick_def)
  next
    case False
    define ks where "ks = filter allBulkKeys (map fst (redis w))"
    have pb: "processBulkBooks w = process_keys ks (io_tick w)"
      unfolding ks_def by (rule processBulkBooks_scan [OF False])
    from e(1) have "(REDIS_KEYS_bulkBooks o1, e) \<in> set (redis w)" by (rule map_of_SomeD)
    then have "REDIS_KEYS_bulkBooks o1 \<in> set ks"
      by (force simp: ks_def allBulkKeys_iff)
    then obtain i where i: "i < length ks" "ks ! i = REDIS_KEYS_bulkBooks o1"
      by (auto simp: in_set_conv_nth)
    have dist: "distinct ks" using ok by (simp add: ks_def store_ok_def distinct_map_filter)
    have e': "map_of (redis (io_tick w)) (ks ! i) = Some e" using e(1) i(2) by (simp add: io_tick_def)
    define wi where "wi = process_keys (take i ks) (io_tick w)"
    define r where "r = fst (process_key (ks ! i) wi)"
    note t = tick_key [OF store_ok_io_tick [OF ok] dist i(1) e' e(2), folded wi_def, folded r_def,
        folded pb]
    from status_of_props [of d wi] obtain sd where sd: "status_of d wi = \<lparr>val = VStatus sd, ttl = 3600\<rparr>"
      "st_requestId sd = requestId d" "totalBooks sd = length (books d)"
      "successCount sd + failCount sd = totalBooks sd" by blast
    have g: "good" if "map_of (redis (processBulkBooks w)) (REDIS_KEYS_bulkStatus o1) = Some (status_of d wi)"
      using that sd unfolding good_def st_def by auto
    show ?thesis
    proof (cases "r = Inr True")
      case True
      with t(3) od g show ?thesis by simp
    next
      case False
      with t(2) have "\<not> no_faults w"
        by (auto simp: no_faults_def io_tick_def split: if_splits)
      with t(4) [OF False] od g show ?thesis by (auto simp: st_def io_tick_def)
    qed
  qed
  from main show "st = map_of (redis w) (REDIS_KEYS_bulkStatus o1) \<or> good" by blast
  from main show "no_faults w \<Longrightarrow> good" by blast
qed

lemma tick_after_intake:
  assumes r: "reachable w" and b: "js_get body ''books'' = Inr (JArr items)"
    and p: "post_bulk u body w = (Accepted a, w1)"
  defines "st \<equiv> map_of (redis (processBulkBooks w1)) (REDIS_KEYS_bulkStatus (user_id u))"
  defines "good \<equiv> (\<exists>sd. st = Some \<lparr>val = VStatus sd, ttl = 3600\<rparr> \<and>
     st_requestId sd = ack_requestId a \<and> successCount sd + failCount sd = totalBooks sd \<and>
     totalBooks sd = length items)"
  shows "1 \<le> length items \<and> length items \<le> 100 \<and>
     map_of (redis w1) (REDIS_KEYS_bulkBooks (user_id u)) =
       Some \<lparr>val = VQueue (make_bulkData u items w), ttl = 7200\<rparr> \<and>
     (st = map_of (redis w1) (REDIS_KEYS_bulkStatus (user_id u)) \<or> good) \<and>
     (no_faults w \<longrightarrow> good)"
proof -
  from post_bulk_accepted [OF p] b
  have items: "items \<noteq> []" "length items \<le> 100"
    and rd: "redis w1 = AList.update (REDIS_KEYS_bulkBooks (user_id u))
        \<lparr>val = VQueue (make_bulkData u items w), ttl = 7200\<rparr> (redis w)"
    and a: "ack_requestId a = requestId (make_bulkData u items w)"
    and f: "io_fails w1 = io_fails w"
    by auto
  have w1: "w1 = step (PostBulk u body) w" by (simp add: p)
  have ok: "store_ok w1" unfolding w1 by (rule reachable_store_ok [OF reachable.next_event [OF r]])
  have e: "map_of (redis w1) (REDIS_KEYS_bulkBooks (user_id u)) =
       Some \<lparr>val = VQueue (make_bulkData u items w), ttl = 7200\<rparr>"
    by (simp add: rd update_conv')
  have len: "length (books (make_bulkData u items w)) = length items"
    by (simp add: make_bulkData_def)
  note t = tick_status [OF ok e, of "make_bulkData u items w", simplified len, folded a, folded st_def]
  have nf: "no_faults w1 = no_faults w" by (simp add: no_faults_def f)
  from items have "1 \<le> length items" by (cases items) simp_all
  moreover from t(1) have "st = map_of (redis w1) (REDIS_KEYS_bulkStatus (user_id u)) \<or> good"
    unfolding good_def by (simp add: eq_commute [of "totalBooks _" "length items"] conj_commute)
  moreover from t(2) have "no_faults w \<longrightarrow> good"
    unfolding good_def nf by (auto simp: conj_commute)
  ultimately show ?thesis using items(2) e by blast
qed

subsection \<open>Intake followed by a pass\<close>

lemma quiet_start: "reachable quiet_world"
  by (rule reachable.start) (simp add: initial_def quiet_world_def)

lemma quiet_items:
  "js_get three_books ''books'' = Inr (JArr [item ''t1'', item ''t2'', item ''t3''])"
  by (simp add: three_books_def)

lemma quiet_accepted:
  "post_bulk ann three_books quiet_world = (Accepted ann_ack, step (PostBulk ann three_books) quiet_world)"
proof -
  have "fst (post_bulk ann three_books quiet_world) = Accepted ann_ack"
    by (simp add: ex_defs run_defs ann_ack_def)
  then show ?thesis by (simp add: prod_eq_iff)
qed

lemma quiet_no_faults: "no_faults quiet_world"
  by (simp add: no_faults_def quiet_world_def)

lemma length_filter_fst_le1:
  "distinct (map fst xs) \<Longrightarrow> length (filter (\<lambda>p. fst p = k) xs) \<le> 1"
proof (induction xs)
  case Nil
  then show ?case by simp
next
  case (Cons p xs)
  show ?case
  proof (cases "fst p = k")
    case True
    with Cons.prems have "k \<notin> fst ` set xs" by auto
    then have "filter (\<lambda>p. fst p = k) xs = []" by (auto simp: filter_empty_conv)
    with True show ?thesis by simp
  next
    case False
    with Cons show ?thesis by simp
  qed
qed

lemma queue_entries_le1:
  assumes "store_ok w"
  shows "length (queue_entries uid w) \<le> 1"
proof -
  let ?P = "\<lambda>p::string \<times> entry. case val (snd p) of VQueue d \<Rightarrow> userId d = uid | VBooks bs \<Rightarrow> False
                 | VStatus sd \<Rightarrow> False"
  have "fst p = REDIS_KEYS_bulkBooks uid" if "p \<in> set (redis w)" "?P p" for p
  proof -
    obtain k e where p: "p = (k, e)" by (cases p)
    from that(1) assms have "map_of (redis w) k = Some e" by (simp add: p store_ok_def)
    from store_okD [OF assms this] that(2) show ?thesis
      by (auto simp: p entry_ok_def split: rvalue.splits)
  qed
  then have "filter ?P (redis w) = filter ?P (filter (\<lambda>p. fst p = REDIS_KEYS_bulkBooks uid) (redis w))"
    by (auto intro: filter_cong)
  then have "length (queue_entries uid w) \<le>
      length (filter (\<lambda>p. fst p = REDIS_KEYS_bulkBooks uid) (redis w))"
    unfolding queue_entries_def by (metis length_filter_le)
  also have "\<dots> \<le> 1" using assms by (intro length_filter_fst_le1) (simp add: store_ok_def)
  finally show ?thesis .
qed

lemma twice_first:
  "post_bulk ann one_book quiet_world = (Accepted ann_ack1, step (PostBulk ann one_book) quiet_world)"
proof -
  have "fst (post_bulk ann one_book quiet_world) = Accepted ann_ack1"
    by (simp add: ex_defs run_defs one_book_def ann_ack1_def)
  then show ?thesis by (simp add: prod_eq_iff)
qed

lemma twice_second:
  "post_bulk ann three_books (step (PostBulk ann one_book) quiet_world) =
     (Accepted ann_ack2, step (PostBulk ann three_books) (step (PostBulk ann one_book) quiet_world))"
proof -
  have "fst (post_bulk ann three_books (step (PostBulk ann one_book) quiet_world)) = Accepted ann_ack2"
    by (simp add: ex_defs run_defs one_book_def ann_ack2_def)
  then show ?thesis by (simp add: prod_eq_iff)
qed

subsection \<open>A tick of the report generator\<close>

lemma report_key_frame:
  "report_key k w = (r, w') \<Longrightarrow>
     io_fails w' = io_fails w \<and> pdf_cleanup w' = pdf_cleanup w \<and>
     booksDatabase w' = booksDatabase w \<and> (\<exists>ms. outbox w' = outbox w @ ms)"
  unfolding report_key_def redis_get_def redis_del_def generateBulkReport_def sendReportEmail_def
    fs_remove_def
  by (auto simp: io_tick_def io_down_def
      split: prod.splits sum.splits option.splits rvalue.splits if_splits)

lemma report_keys_io_fails [simp]: "io_fails (report_keys ks w) = io_fails w"
  by (induction ks arbitrary: w) (simp_all add: report_key_frame [OF surjective_pairing])

lemma report_keys_pdf_cleanup [simp]: "pdf_cleanup (report_keys ks w) = pdf_cleanup w"
  by (induction ks arbitrary: w) (simp_all add: report_key_frame [OF surjective_pairing])

lemma report_keys_outbox: "\<exists>ms. outbox (report_keys ks w) = outbox w @ ms"
proof (induction ks arbitrary: w)
  case Nil
  then show ?case by simp
next
  case (Cons k ks)
  from report_key_frame [OF surjective_pairing, of k w]
  obtain ms where "outbox (snd (report_key k w)) = outbox w @ ms" by blast
  moreover from Cons.IH [of "snd (report_key k w)"]
  obtain ms' where "outbox (report_keys ks (snd (report_key k w))) = outbox (snd (report_key k w)) @ ms'"
    by blast
  ultimately show ?case by simp
qed

lemma report_keys_append: "report_keys (xs @ ys) w = report_keys ys (report_keys xs w)"
  by (induction xs arbitrary: w) simp_all

lemma report_key_untouched:
  "x \<noteq> k \<Longrightarrow> map_of (redis (snd (report_key k w))) x = map_of (redis w) x"
  using report_key_redis [OF surjective_pairing, of k w] by (auto simp: delete_conv')

lemma report_keys_untouched:
  "x \<notin> set ks \<Longrightarrow> map_of (redis (report_keys ks w)) x = map_of (redis w) x"
  by (induction ks arbitrary: w) (auto simp: report_key_untouched)

lemma report_key_status:
  assumes "map_of (redis w) k = Some e" "val e = VStatus sd" "report_key k w = (r, w')"
  shows "(r = Inr True) =
           (\<not> io_fails w (io_ctr w) \<and> \<not> io_fails w (io_ctr w + 1) \<and> \<not> io_fails w (io_ctr w + 2) \<and>
            \<not> io_fails w (io_ctr w + 3) \<and> (pdf_cleanup w \<longrightarrow> \<not> io_fails w (io_ctr w + 4)))"
    and "r \<noteq> Inr True \<Longrightarrow> (\<exists>err. r = Inl err) \<and> redis w' = redis w"
    and "r = Inr True \<Longrightarrow> redis w' = AList.delete k (redis w) \<and>
           outbox w' = outbox w @ [report_mail sd] \<and>
           (pdf_cleanup w \<longrightarrow> report_path sd \<notin> set (files w'))"
  using assms
  unfolding report_key_def redis_get_def redis_del_def generateBulkReport_def sendReportEmail_def
    fs_remove_def report_mail_def
  by (auto simp: io_tick_def io_down_def numeral_2_eq_2 numeral_3_eq_3 numeral_eq_Suc
      split: prod.splits sum.splits option.splits rvalue.splits if_splits)

lemma status_key_entry:
  assumes "store_ok w" "allStatusKeys k" "map_of (redis w) k = Some e"
  shows "\<exists>sd. val e = VStatus sd"
  using store_okD [OF assms(1,3)] assms(2)
  by (cases "val e") (auto simp: entry_ok_def allStatusKeys_iff cache_prefix_iff)

lemma scanned_status_keys:
  assumes "store_ok w" "i < length (filter allStatusKeys (map fst (redis w)))"
  shows "\<exists>e sd. map_of (redis w) (filter allStatusKeys (map fst (redis w)) ! i) = Some e \<and>
           val e = VStatus sd"
proof -
  let ?ks = "filter allStatusKeys (map fst (redis w))"
  from assms(2) have "?ks ! i \<in> set ?ks" by (rule nth_mem)
  then have b: "allStatusKeys (?ks ! i)" and "?ks ! i \<in> fst ` set (redis w)" by auto
  then obtain e where "(?ks ! i, e) \<in> set (redis w)" by force
  with assms(1) have e: "map_of (redis w) (?ks ! i) = Some e" by (simp add: store_ok_def)
  from status_key_entry [OF assms(1) b e] e show ?thesis by blast
qed

lemma generateAndSendReports_scan:
  assumes "\<not> io_down w" "\<not> io_fails w (Suc (io_ctr w))"
  shows "generateAndSendReports w =
           report_keys (filter allStatusKeys (map fst (redis w))) (io_tick (io_tick w)) \<or>
         (filter allStatusKeys (map fst (redis w)) = [] \<and> generateAndSendReports w = io_tick w)"
proof -
  define ks where "ks = filter allStatusKeys (map fst (redis w))"
  have "generateAndSendReports w = report_keys ks (io_tick (io_tick w)) \<or>
         (ks = [] \<and> generateAndSendReports w = io_tick w)"
    unfolding generateAndSendReports_def redis_keys_def ensureReportsDirectory_def
      ks_def [symmetric] using assms
    by (cases ks) (simp_all add: io_down_def io_tick_def)
  then show ?thesis by (simp only: ks_def)
qed

lemma generateAndSendReports_abort:
  assumes "io_down w \<or> io_fails w (Suc (io_ctr w))"
  shows "redis (generateAndSendReports w) = redis w \<and> outbox (generateAndSendReports w) = outbox w"
proof -
  define ks where "ks = filter allStatusKeys (map fst (redis w))"
  show ?thesis
    unfolding generateAndSendReports_def redis_keys_def ensureReportsDirectory_def
      ks_def [symmetric] using assms
    by (cases ks) (auto simp: io_down_def io_tick_def)
qed

lemmas report_defs = generateAndSendReports_def report_key_def generateBulkReport_def
  sendReportEmail_def fs_remove_def ensureReportsDirectory_def report_path_def report_mail_def

lemma quiet_processed_reach: "reachable quiet_processed"
  unfolding quiet_processed_def by (rule quiet_reach)

lemma quiet_processed_redis:
  "redis quiet_processed = [(''bulk_status:user:u1'', \<lparr>val = VStatus ann_status, ttl = 3600\<rparr>)]"
  unfolding quiet_processed_def by (rule quiet_redis)

lemma quiet_processed_io:
  "\<not> io_down quiet_processed \<and> \<not> io_fails quiet_processed (Suc (io_ctr quiet_processed))"
  by (simp add: quiet_processed_def ex_defs run_defs)

lemma quiet_processed_report:
  "fst (report_key ''bulk_status:user:u1'' (io_tick (io_tick quiet_processed))) = Inr True"
  by (simp add: quiet_processed_def ex_defs run_defs report_defs)

subsection \<open>The status query\<close>

lemma get_queue_frame:
  "get_queue u w = (r, w') \<Longrightarrow>
     redis w' = redis w \<and> booksDatabase w' = booksDatabase w \<and> files w' = files w \<and>
     outbox w' = outbox w \<and> now w' = now w \<and> io_fails w' = io_fails w"
  unfolding get_queue_def redis_get_def redis_ttl_def
  by (auto simp: io_tick_def io_down_def split: prod.splits sum.splits option.splits rvalue.splits if_splits)

lemma get_queue_none:
  assumes "\<not> io_fails w (io_ctr w)" "\<not> io_fails w (io_ctr w + 1)"
    and "map_of (redis w) (REDIS_KEYS_bulkBooks (user_id u)) = None"
    and "map_of (redis w) (REDIS_KEYS_bulkStatus (user_id u)) = None"
  shows "fst (get_queue u w) = QueueOk NoQueue"
  using assms unfolding get_queue_def redis_get_def
  by (simp add: io_tick_def io_down_def)

lemma get_queue_queued:
  assumes "\<not> io_fails w (io_ctr w)" "\<not> io_fails w (io_ctr w + 1)" "\<not> io_fails w (io_ctr w + 2)"
    and "map_of (redis w) (REDIS_KEYS_bulkBooks (user_id u)) = Some e" and "val e = VQueue d"
  shows "fst (get_queue u w) =
     QueueOk (Queued (length (books d)) (requestId d) (queuedAt d) (expiresIn (ttl e)))"
  using assms unfolding get_queue_def redis_get_def redis_ttl_def
  by (simp add: io_tick_def io_down_def numeral_2_eq_2)

lemma get_queue_status:
  assumes "\<not> io_fails w (io_ctr w)" "\<not> io_fails w (io_ctr w + 1)" "\<not> io_fails w (io_ctr w + 2)"
    and "map_of (redis w) (REDIS_KEYS_bulkBooks (user_id u)) = None"
    and "map_of (redis w) (REDIS_KEYS_bulkStatus (user_id u)) = Some e" and "val e = VStatus sd"
  shows "fst (get_queue u w) =
     QueueOk (ProcessedAwaitingReport (st_requestId sd) (totalBooks sd) (successCount sd)
       (failCount sd) (processedAt sd) (expiresIn (ttl e)))"
  using assms unfolding get_queue_def redis_get_def redis_ttl_def
  by (simp add: io_tick_def io_down_def numeral_2_eq_2)

lemma quiet_both_reach: "reachable quiet_both"
  unfolding quiet_both_def by (rule reachable.next_event [OF quiet_processed_reach])

lemma quiet_both_view:
  "map fst (redis quiet_both) = [''bulk_status:user:u1'', ''bulk_books:user:u1''] \<and>
   fst (get_queue ann quiet_both) = QueueOk (Queued 1 ''iiiiii'' 5 (Seconds 7200))"
  by (simp add: quiet_both_def quiet_processed_def ex_defs run_defs one_book_def get_queue_def
      expiresIn_def)

lemma quiet_both_io:
  "\<not> io_fails quiet_both (io_ctr quiet_both) \<and> \<not> io_fails quiet_both (io_ctr quiet_both + 1) \<and>
   \<not> io_fails quiet_both (io_ctr quiet_both + 2)"
  by (simp add: quiet_both_def quiet_processed_def ex_defs run_defs one_book_def)

lemma quiet_processed_view:
  "fst (get_queue ann quiet_processed) =
     QueueOk (ProcessedAwaitingReport ''iiii'' 3 2 1 5 (Seconds 3600))"
  by (simp add: quiet_processed_def ex_defs run_defs get_queue_def expiresIn_def)

lemma quiet_processed_io3:
  "\<not> io_fails quiet_processed (io_ctr quiet_processed) \<and>
   \<not> io_fails quiet_processed (io_ctr quiet_processed + 1) \<and>
   \<not> io_fails quiet_processed (io_ctr quiet_processed + 2)"
  by (simp add: quiet_processed_def ex_defs run_defs)

lemma quiet_view: "fst (get_queue ann quiet_world) = QueueOk NoQueue"
  by (simp add: ex_defs run_defs get_queue_def)

subsection \<open>Validation at the intake; what a pass adds to the database\<close>

lemma post_bulk_empty:
  "js_get body ''books'' = Inr (JArr []) \<Longrightarrow> post_bulk u body w = (BadRequest NonEmptyArray, w)"
  by (simp add: post_bulk_def)

lemma post_bulk_over_maximum:
  "js_get body ''books'' = Inr (JArr bs) \<Longrightarrow> 100 < length bs \<Longrightarrow>
     post_bulk u body w = (BadRequest Maximum100, w)"
  by (auto simp: post_bulk_def)

lemma validate_books_all:
  "(validate_books i bs = Inr None) = list_all has_fields bs"
  by (induction bs arbitrary: i)
    (auto simp: has_fields_def split: sum.splits)

lemma post_bulk_valid:
  assumes "js_get body ''books'' = Inr (JArr bs)" "bs \<noteq> []" "length bs \<le> 100"
    and "list_all has_fields bs" and "\<not> io_down w"
  shows "fst (post_bulk u body w) =
           Accepted \<lparr>ack_requestId = requestId (make_bulkData u bs w), ack_queuedBooks = length bs,
                     ack_queuedAt = queuedAt (make_bulkData u bs w)\<rparr> \<and>
         map_of (redis (snd (post_bulk u body w))) (REDIS_KEYS_bulkBooks (user_id u)) =
           Some \<lparr>val = VQueue (make_bulkData u bs w), ttl = 7200\<rparr>"
  using assms validate_books_all [of 0 bs]
  by (simp add: post_bulk_def redis_setex_def Let_def io_tick_def io_down_def update_conv')

lemma validate_books_first:
  assumes "findIndex (\<lambda>b. \<not> has_fields b) bs = Some j"
  shows "validate_books i bs =
     (if bs ! j = JNull \<or> bs ! j = JUndefined then Inl TypeError else Inr (Some (i + j)))"
  using assms
proof (induction bs arbitrary: i j)
  case Nil
  then show ?case by simp
next
  case (Cons b bs)
  show ?case
  proof (cases "has_fields b")
    case True
    with Cons.prems obtain j' where j: "findIndex (\<lambda>b. \<not> has_fields b) bs = Some j'" "j = Suc j'"
      by auto
    from True have "validate_books i (b # bs) = validate_books (Suc i) bs"
      by (auto simp: has_fields_def split: sum.splits)
    with Cons.IH [OF j(1), of "Suc i"] j(2) show ?thesis by simp
  next
    case False
    with Cons.prems have "j = 0" by simp
    with False show ?thesis
      by (cases b) (auto simp: has_fields_def split: sum.splits)
  qed
qed

lemma post_bulk_missing_fields:
  assumes "js_get body ''books'' = Inr (JArr bs)" "length bs \<le> 100"
    and "findIndex (\<lambda>b. \<not> has_fields b) bs = Some j"
  shows "post_bulk u body w =
     (if bs ! j = JNull \<or> bs ! j = JUndefined then InternalServerError
      else BadRequest (MissingFields j), w)"
proof -
  from assms(3) have "bs \<noteq> []" by auto
  with assms(1,2) validate_books_first [OF assms(3), of 0] show ?thesis
    by (auto simp: post_bulk_def)
qed

lemma process_key_database:
  assumes "map_of (redis w) k = Some e" "val e = VQueue d"
  shows "uuid_ctr (snd (process_key k w)) = uuid_ctr w \<and>
     (booksDatabase (snd (process_key k w)) = booksDatabase w \<or>
      booksDatabase (snd (process_key k w)) = booksDatabase w @
        map (\<lambda>i. books d ! i)
          (filter (\<lambda>i. \<not> random_lt w (random_ctr w + i)) [0..<length (books d)]))"
proof -
  obtain t' w' where p: "process_books (books d) tally0 (io_tick w) = (t', w')"
    by (cases "process_books (books d) tally0 (io_tick w)")
  from process_books_outcome [OF p] process_books_frame [OF p]
  have db: "booksDatabase w' = booksDatabase w @
        map (\<lambda>i. books d ! i)
          (filter (\<lambda>i. \<not> random_lt w (random_ctr w + i)) [0..<length (books d)])"
    and fr: "uuid_ctr w' = uuid_ctr w" "io_ctr w' = Suc (io_ctr w)" "io_fails w' = io_fails w"
    by (simp_all add: io_tick_def)
  show ?thesis
    using assms db fr
    unfolding process_key_def redis_get_def redis_setex_def redis_del_def
    by (auto simp: io_tick_def io_down_def p [unfolded io_tick_def]
        split: prod.splits sum.splits if_splits)
qed

lemma retry_queued_redis:
  "map_of (redis retry_queued) ''bulk_books:user:u1'' = Some \<lparr>val = VQueue retry_batch, ttl = 7200\<rparr>"
  by (simp add: retry_queued_def retry_world_def retry_batch_def ex_defs run_defs one_book_def)

subsection \<open>The cache of the book lists\<close>

lemma findIndex_Some:
  "findIndex p xs = Some i \<Longrightarrow> i < length xs \<and> p (xs ! i)"
proof (induction xs arbitrary: i)
  case Nil
  then show ?case by simp
next
  case (Cons x xs)
  then show ?case by (cases "p x") auto
qed

lemma filter_update_other:
  "i < length xs \<Longrightarrow> \<not> P (xs ! i) \<Longrightarrow> \<not> P y \<Longrightarrow> filter P (xs[i := y]) = filter P xs"
proof (induction xs arbitrary: i)
  case Nil
  then show ?case by simp
next
  case (Cons x xs)
  then show ?case by (cases i) auto
qed

lemma filter_remove_other:
  assumes "i < length xs" "\<not> P (xs ! i)"
  shows "filter P (take i xs @ drop (Suc i) xs) = filter P xs"
proof -
  from assms(1) have "xs = take i xs @ xs ! i # drop (Suc i) xs" by (rule id_take_nth_drop)
  then have "filter P xs = filter P (take i xs @ xs ! i # drop (Suc i) xs)" by simp
  with assms(2) show ?thesis by simp
qed

lemma get_books_absent:
  assumes "map_of (redis w) (REDIS_KEYS_userBooks (user_id u)) = None"
  shows "reads_fresh u w"
  using assms unfolding reads_fresh_def get_books_def redis_get_def redis_setex_def own_books_def
  by (simp add: io_tick_def io_down_def Let_def)

lemma get_books_cached:
  assumes "fst (get_books u w) = BooksOk Cache v"
  shows "\<exists>e. map_of (redis w) (REDIS_KEYS_userBooks (user_id u)) = Some e \<and> val e = v"
  using assms unfolding get_books_def redis_get_def redis_setex_def
  by (auto simp: io_tick_def io_down_def Let_def split: option.splits if_splits)

lemma post_book_created:
  assumes "post_book u f w = (BookCreated b, w')"
  shows "redis w' = AList.delete (REDIS_KEYS_userBooks (user_id u)) (redis w) \<and>
     booksDatabase w' = booksDatabase w @ [b] \<and> book_userId b = user_id u"
  using assms unfolding post_book_def redis_del_def generateId_def
  by (auto simp: io_tick_def io_down_def Let_def split: prod.splits sum.splits if_splits)

lemma put_book_updated:
  assumes "put_book u i f w = (BookUpdated b, w')"
  shows "redis w' = AList.delete (REDIS_KEYS_userBooks (user_id u)) (redis w) \<and>
     (\<exists>j. j < length (booksDatabase w) \<and> booksDatabase w' = (booksDatabase w)[j := b] \<and>
        book_userId (booksDatabase w ! j) = user_id u \<and> book_id (booksDatabase w ! j) = i) \<and>
     book_userId b = user_id u \<and> book_id b = i"
  using assms unfolding put_book_def redis_del_def
  by (auto simp: io_tick_def io_down_def Let_def dest!: findIndex_Some
      split: prod.splits sum.splits option.splits if_splits)

lemma delete_book_deleted:
  assumes "delete_book u i w = (BookDeleted b, w')"
  shows "redis w' = AList.delete (REDIS_KEYS_userBooks (user_id u)) (redis w) \<and>
     (\<exists>j. j < length (booksDatabase w) \<and> b = booksDatabase w ! j \<and>
        booksDatabase w' = take j (booksDatabase w) @ drop (Suc j) (booksDatabase w)) \<and>
     book_userId b = user_id u \<and> book_id b = i"
  using assms unfolding delete_book_def redis_del_def
  by (auto simp: io_tick_def io_down_def Let_def dest!: findIndex_Some
      split: prod.splits sum.splits option.splits if_splits)

lemma process_key_completed:
  assumes "map_of (redis w) k = Some e" "val e = VQueue d" "process_key k w = (Inr True, w')"
  shows "redis w' = AList.delete k (AList.delete (REDIS_KEYS_userBooks (userId d))
              (AList.update (REDIS_KEYS_bulkStatus (userId d)) (status_of d w) (redis w))) \<and>
     booksDatabase w' = booksDatabase w @
        map (\<lambda>i. books d ! i)
          (filter (\<lambda>i. \<not> random_lt w (random_ctr w + i)) [0..<length (books d)])"
proof -
  obtain t' w1 where p: "process_books (books d) tally0 (io_tick w) = (t', w1)"
    by (cases "process_books (books d) tally0 (io_tick w)")
  from process_books_outcome [OF p] process_books_frame [OF p]
  have db: "booksDatabase w1 = booksDatabase w @
        map (\<lambda>i. books d ! i)
          (filter (\<lambda>i. \<not> random_lt w (random_ctr w + i)) [0..<length (books d)])"
    by (simp_all add: io_tick_def)
  from process_key_queue [OF assms] have "redis w' = AList.delete k (AList.delete (REDIS_KEYS_userBooks (userId d))
              (AList.update (REDIS_KEYS_bulkStatus (userId d)) (status_of d w) (redis w)))"
    by simp
  moreover have "booksDatabase w' = booksDatabase w1"
    using assms
    unfolding process_key_def redis_get_def redis_setex_def redis_del_def
    by (auto simp: io_tick_def io_down_def p [unfolded io_tick_def]
        split: prod.splits sum.splits if_splits)
  ultimately show ?thesis using db by simp
qed

lemma coherentI:
  assumes "\<And>uid e'. map_of (redis w') (REDIS_KEYS_userBooks uid) = Some e' \<Longrightarrow>
             (\<exists>e. map_of (redis w) (REDIS_KEYS_userBooks uid) = Some e \<and> val e = val e') \<and>
             own_books uid w' = own_books uid w"
    and "coherent w"
  shows "coherent w'"
  using assms unfolding coherent_def by metis

lemma coherent_delete:
  assumes "coherent w" "booksDatabase w' = booksDatabase w"
    and "redis w' = redis w \<or> redis w' = AList.delete k (redis w)"
  shows "coherent w'"
  using assms(3,2)
  by (intro coherentI [OF _ assms(1)]) (auto simp: delete_conv' own_books_def split: if_splits)

lemma coherent_mutation:
  assumes "coherent w" "redis w' = AList.delete (REDIS_KEYS_userBooks u) (redis w)"
    and "\<And>uid. uid \<noteq> u \<Longrightarrow> own_books uid w' = own_books uid w"
  shows "coherent w'"
  using assms(2,3)
  by (intro coherentI [OF _ assms(1)]) (auto simp: delete_conv' split: if_splits)

lemma get_books_frame:
  "get_books u w = (r, w') \<Longrightarrow> booksDatabase w' = booksDatabase w \<and> io_fails w' = io_fails w"
  unfolding get_books_def redis_get_def redis_setex_def
  by (auto simp: io_tick_def io_down_def Let_def split: prod.splits sum.splits option.splits if_splits)

lemma get_books_coherent:
  assumes "coherent w"
  shows "coherent (snd (get_books u w))"
proof -
  define w' where "w' = snd (get_books u w)"
  have db: "booksDatabase w' = booksDatabase w"
    using get_books_frame [OF surjective_pairing, of u w] by (simp add: w'_def)
  from get_books_redis [OF surjective_pairing, of u w]
  have "redis w' = redis w \<or>
     redis w' = AList.update (REDIS_KEYS_userBooks (user_id u))
        \<lparr>val = own_books (user_id u) w, ttl = 300\<rparr> (redis w)"
    by (simp add: w'_def own_books_def)
  then have "coherent w'"
    using assms db unfolding coherent_def own_books_def
    by (auto simp: update_conv' split: if_splits)
  then show ?thesis by (simp add: w'_def)
qed

lemma post_book_frame:
  "post_book u f w = (r, w') \<Longrightarrow>
     io_fails w' = io_fails w \<and> (io_fails w (io_ctr w) \<or> (\<exists>b. r = BookCreated b))"
  unfolding post_book_def redis_del_def generateId_def
  by (auto simp: io_tick_def io_down_def Let_def split: prod.splits sum.splits if_splits)

lemma put_book_frame:
  "put_book u i f w = (r, w') \<Longrightarrow>
     io_fails w' = io_fails w \<and>
     (io_fails w (io_ctr w) \<or> (\<exists>b. r = BookUpdated b) \<or> (r = NotFound \<and> w' = w))"
  unfolding put_book_def redis_del_def
  by (auto simp: io_tick_def io_down_def Let_def split: prod.splits sum.splits option.splits if_splits)

lemma delete_book_frame:
  "delete_book u i w = (r, w') \<Longrightarrow>
     io_fails w' = io_fails w \<and>
     (io_fails w (io_ctr w) \<or> (\<exists>b. r = BookDeleted b) \<or> (r = NotFound \<and> w' = w))"
  unfolding delete_book_def redis_del_def
  by (auto simp: io_tick_def io_down_def Let_def split: prod.splits sum.splits option.splits if_splits)

lemma post_bulk_frame:
  "post_bulk u body w = (r, w') \<Longrightarrow> booksDatabase w' = booksDatabase w \<and> io_fails w' = io_fails w"
  unfolding post_bulk_def redis_setex_def
  by (auto simp: io_tick_def io_down_def Let_def
      split: prod.splits sum.splits option.splits jsval.splits if_splits)

lemma post_book_coherent:
  assumes "coherent w" "no_faults w"
  shows "coherent (snd (post_book u f w))"
proof -
  obtain r w' where p: "post_book u f w = (r, w')" by (cases "post_book u f w")
  with post_book_frame [OF p] assms(2) obtain b where r: "r = BookCreated b"
    by (auto simp: no_faults_def)
  from post_book_created [OF p [unfolded r]]
  have "coherent w'"
    by (intro coherent_mutation [OF assms(1), of w' "user_id u"]) (auto simp: own_books_def)
  then show ?thesis by (simp add: p)
qed

lemma put_book_coherent:
  assumes "coherent w" "no_faults w"
  shows "coherent (snd (put_book u i f w))"
proof -
  obtain r w' where p: "put_book u i f w = (r, w')" by (cases "put_book u i f w")
  from put_book_frame [OF p] assms(2)
  consider b where "r = BookUpdated b" | "r = NotFound" "w' = w" by (auto simp: no_faults_def)
  then have "coherent w'"
  proof cases
    case 1
    from put_book_updated [OF p [unfolded 1]] show ?thesis
      by (intro coherent_mutation [OF assms(1), of w' "user_id u"])
        (auto simp: own_books_def filter_update_other)
  next
    case 2
    with assms(1) show ?thesis by simp
  qed
  then show ?thesis by (simp add: p)
qed

lemma delete_book_coherent:
  assumes "coherent w" "no_faults w"
  shows "coherent (snd (delete_book u i w))"
proof -
  obtain r w' where p: "delete_book u i w = (r, w')" by (cases "delete_book u i w")
  from delete_book_frame [OF p] assms(2)
  consider b where "r = BookDeleted b" | "r = NotFound" "w' = w" by (auto simp: no_faults_def)
  then have "coherent w'"
  proof cases
    case 1
    from delete_book_deleted [OF p [unfolded 1]] show ?thesis
      by (intro coherent_mutation [OF assms(1), of w' "user_id u"])
        (auto simp: own_books_def filter_remove_other simp del: filter_append)
  next
    case 2
    with assms(1) show ?thesis by simp
  qed
  then show ?thesis by (simp add: p)
qed

lemma post_bulk_coherent:
  assumes "coherent w"
  shows "coherent (snd (post_bulk u body w))"
proof -
  define w' where "w' = snd (post_bulk u body w)"
  have db: "booksDatabase w' = booksDatabase w"
    using post_bulk_frame [OF surjective_pairing, of u body w] by (simp add: w'_def)
  from post_bulk_redis [OF surjective_pairing, of u body w]
  have "redis w' = redis w \<or>
     (\<exists>v. redis w' = AList.update (REDIS_KEYS_bulkBooks (user_id u)) v (redis w))"
    by (auto simp: w'_def)
  then have "coherent w'"
    using db by (intro coherentI [OF _ assms]) (auto simp: update_conv' own_books_def)
  then show ?thesis by (simp add: w'_def)
qed

lemma process_key_other_db:
  assumes "process_key k w = (r, w')" "\<forall>e d. map_of (redis w) k = Some e \<longrightarrow> val e \<noteq> VQueue d"
  shows "booksDatabase w' = booksDatabase w"
  using assms
  unfolding process_key_def redis_get_def
  by (auto simp: io_tick_def io_down_def split: prod.splits sum.splits option.splits rvalue.splits if_splits)

lemma process_key_coherent:
  assumes ok: "store_ok w" and co: "coherent w" and nf: "no_faults w"
  shows "coherent (snd (process_key k w))"
proof (cases "\<exists>e d. map_of (redis w) k = Some e \<and> val e = VQueue d")
  case True
  then obtain e d where e: "map_of (redis w) k = Some e" "val e = VQueue d" by blast
  from store_okD [OF ok e(1)] e(2)
  have k: "k = REDIS_KEYS_bulkBooks (userId d)"
    and own: "list_all (\<lambda>b. book_userId b = userId d) (books d)"
    by (simp_all add: entry_ok_def)
  from process_key_result [OF e] nf have "fst (process_key k w) = Inr True"
    by (simp add: no_faults_def)
  then have "process_key k w = (Inr True, snd (process_key k w))" by (simp add: prod_eq_iff)
  from process_key_completed [OF e this]
  have rd: "redis (snd (process_key k w)) = AList.delete k (AList.delete (REDIS_KEYS_userBooks (userId d))
              (AList.update (REDIS_KEYS_bulkStatus (userId d)) (status_of d w) (redis w)))"
    and db: "booksDatabase (snd (process_key k w)) = booksDatabase w @
        map (\<lambda>i. books d ! i)
          (filter (\<lambda>i. \<not> random_lt w (random_ctr w + i)) [0..<length (books d)])"
    by simp_all
  have keep: "own_books uid (snd (process_key k w)) = own_books uid w" if "uid \<noteq> userId d" for uid
  proof -
    have "filter (\<lambda>b. book_userId b = uid) (map (\<lambda>i. books d ! i)
          (filter (\<lambda>i. \<not> random_lt w (random_ctr w + i)) [0..<length (books d)])) = []"
      using own that by (auto simp: filter_empty_conv list_all_length)
    then show ?thesis by (simp add: own_books_def db)
  qed
  show ?thesis
  proof (rule coherentI [OF _ co])
    fix uid e'
    assume "map_of (redis (snd (process_key k w))) (REDIS_KEYS_userBooks uid) = Some e'"
    then have "uid \<noteq> userId d \<and> map_of (redis w) (REDIS_KEYS_userBooks uid) = Some e'"
      unfolding rd by (auto simp: k delete_conv' update_conv' split: if_splits)
    with keep show "(\<exists>e. map_of (redis w) (REDIS_KEYS_userBooks uid) = Some e \<and> val e = val e') \<and>
        own_books uid (snd (process_key k w)) = own_books uid w" by simp
  qed
next
  case False
  with process_key_other [OF surjective_pairing, where k = k and w = w]
    process_key_other_db [OF surjective_pairing, where k = k and w = w]
  show ?thesis by (intro coherent_delete [OF co]) auto
qed

lemma no_faults_cong: "io_fails w' = io_fails w \<Longrightarrow> no_faults w' = no_faults w"
  by (simp add: no_faults_def)

lemma process_keys_coherent:
  "store_ok w \<Longrightarrow> coherent w \<Longrightarrow> no_faults w \<Longrightarrow> coherent (process_keys ks w)"
proof (induction ks arbitrary: w)
  case Nil
  then show ?case by simp
next
  case (Cons k ks)
  have "store_ok (snd (process_key k w))"
    by (rule process_key_store_ok [OF Cons.prems(1) surjective_pairing])
  moreover have "coherent (snd (process_key k w))"
    by (rule process_key_coherent [OF Cons.prems])
  moreover have "no_faults (snd (process_key k w))"
    using Cons.prems(3) process_key_frame [OF surjective_pairing, of k w]
    by (simp add: no_faults_def)
  ultimately show ?case using Cons.IH by simp
qed

lemma coherent_io_tick: "coherent (io_tick w) = coherent w"
  by (simp add: coherent_def own_books_def io_tick_def)

lemma processBulkBooks_coherent:
  assumes "store_ok w" "coherent w" "no_faults w"
  shows "coherent (processBulkBooks w)"
proof -
  have "\<not> io_down w" using assms(3) by (simp add: no_faults_def io_down_def)
  moreover have "coherent (io_tick w)" using assms(2) by (simp add: coherent_io_tick)
  moreover have "no_faults (io_tick w)" using assms(3) by (simp add: no_faults_def io_tick_def)
  ultimately show ?thesis
    using process_keys_coherent [OF store_ok_io_tick [OF assms(1)]]
    by (simp add: processBulkBooks_scan)
qed

lemma report_keys_coherent: "coherent w \<Longrightarrow> coherent (report_keys ks w)"
proof (induction ks arbitrary: w)
  case Nil
  then show ?case by simp
next
  case (Cons k ks)
  have "coherent (snd (report_key k w))"
    using report_key_frame [OF surjective_pairing, of k w]
      report_key_redis [OF surjective_pairing, of k w]
    by (intro coherent_delete [OF Cons.prems]) auto
  with Cons.IH show ?case by simp
qed

lemma generateAndSendReports_coherent:
  assumes "coherent w"
  shows "coherent (generateAndSendReports w)"
proof -
  have t: "coherent (io_tick w)" "coherent (io_tick (io_tick w))"
    using assms by (simp_all add: coherent_io_tick)
  show ?thesis
    unfolding generateAndSendReports_def redis_keys_def ensureReportsDirectory_def
    by (simp add: t report_keys_coherent)
qed

lemma elapse_lookup:
  assumes "distinct (map fst (redis w))" "map_of (redis (elapse n w)) k = Some e'"
  shows "\<exists>e. map_of (redis w) k = Some e \<and> val e' = val e"
proof -
  define f where "f = (\<lambda>p::string \<times> entry. (fst p, (snd p)\<lparr>ttl := ttl (snd p) - int n\<rparr>))"
  define xs where "xs = filter (\<lambda>p. ttl (snd p) > 0) (map f (redis w))"
  have r: "redis (elapse n w) = xs" by (simp add: elapse_def xs_def f_def)
  from assms(2) have "(k, e') \<in> set xs" unfolding r by (rule map_of_SomeD)
  then have "(k, e') \<in> f ` set (redis w)" by (simp add: xs_def)
  then obtain p where p: "p \<in> set (redis w)" "(k, e') = f p" by blast
  obtain k0 e0 where p0: "p = (k0, e0)" by (cases p)
  from p p0 have k: "k0 = k" and e: "e' = e0\<lparr>ttl := ttl e0 - int n\<rparr>" by (simp_all add: f_def)
  from assms(1) p(1) p0 k have "map_of (redis w) k = Some e0" by simp
  with e show ?thesis by simp
qed

lemma elapse_coherent:
  assumes "store_ok w" "coherent w"
  shows "coherent (elapse n w)"
proof (rule coherentI [OF _ assms(2)])
  fix uid e'
  assume a: "map_of (redis (elapse n w)) (REDIS_KEYS_userBooks uid) = Some e'"
  from assms(1) have d: "distinct (map fst (redis w))" by (simp add: store_ok_def)
  from elapse_lookup [OF d a] obtain e where e: "map_of (redis w) (REDIS_KEYS_userBooks uid) = Some e"
    "val e' = val e" by blast
  then show "(\<exists>e. map_of (redis w) (REDIS_KEYS_userBooks uid) = Some e \<and> val e = val e') \<and>
      own_books uid (elapse n w) = own_books uid w"
    by (auto simp: own_books_def elapse_def)
qed

lemma step_io_fails: "io_fails (step ev w) = io_fails w"
proof (cases ev)
  case (GetBooks u)
  then show ?thesis using get_books_frame [OF surjective_pairing, of u w] by simp
next
  case (PostBook u f)
  then show ?thesis using post_book_frame [OF surjective_pairing, of u f w] by simp
next
  case (PutBook u i f)
  then show ?thesis using put_book_frame [OF surjective_pairing, of u i f w] by simp
next
  case (DeleteBook u i)
  then show ?thesis using delete_book_frame [OF surjective_pairing, of u i w] by simp
next
  case (PostBulk u body)
  then show ?thesis using post_bulk_frame [OF surjective_pairing, of u body w] by simp
next
  case (GetQueue u)
  then show ?thesis using get_queue_frame [OF surjective_pairing, of u w] by simp
next
  case BulkTick
  then show ?thesis
    by (simp add: processBulkBooks_def redis_keys_def io_tick_def)
next
  case ReportTick
  then show ?thesis
    by (simp add: generateAndSendReports_def redis_keys_def ensureReportsDirectory_def io_tick_def)
next
  case (Elapse n)
  then show ?thesis by (simp add: elapse_def)
qed

lemma step_coherent:
  assumes ok: "store_ok w" and co: "coherent w" and nf: "no_faults w"
  shows "coherent (step ev w)"
proof (cases ev)
  case (GetBooks u)
  then show ?thesis by (simp add: get_books_coherent [OF co])
next
  case (PostBook u f)
  then show ?thesis by (simp add: post_book_coherent [OF co nf])
next
  case (PutBook u i f)
  then show ?thesis by (simp add: put_book_coherent [OF co nf])
next
  case (DeleteBook u i)
  then show ?thesis by (simp add: delete_book_coherent [OF co nf])
next
  case (PostBulk u body)
  then show ?thesis by (simp add: post_bulk_coherent [OF co])
next
  case (GetQueue u)
  then show ?thesis
    using get_queue_frame [OF surjective_pairing, of u w]
    by (simp add: coherent_delete [OF co])
next
  case BulkTick
  then show ?thesis by (simp add: processBulkBooks_coherent [OF ok co nf])
next
  case ReportTick
  then show ?thesis by (simp add: generateAndSendReports_coherent [OF co])
next
  case (Elapse n)
  then show ?thesis by (simp add: elapse_coherent [OF ok co])
qed

lemma reachable_coherent: "reachable w \<Longrightarrow> no_faults w \<Longrightarrow> coherent w"
proof (induction rule: reachable.induct)
  case (start w)
  then show ?case by (simp add: initial_def coherent_def)
next
  case (next_event w ev)
  from next_event.prems have nf: "no_faults w" by (simp add: no_faults_def step_io_fails)
  from step_coherent [OF reachable_store_ok [OF next_event.hyps] next_event.IH [OF nf] nf]
  show ?case .
qed

lemmas book_defs = post_book_def put_book_def delete_book_def get_books_def generateId_def
  body_props_def trim_or_null_def year_or_null_def trim_def is_space_def gatsby_def
  gatsby_book_def shelf_def shelf_cached_def Let_def

lemma shelf_created: "post_book ann gatsby quiet_world = (BookCreated gatsby_book, shelf)"
proof -
  have "fst (post_book ann gatsby quiet_world) = BookCreated gatsby_book"
    by (simp add: ex_defs run_defs book_defs)
  then show ?thesis by (simp add: prod_eq_iff shelf_def)
qed

lemma shelf_cached_hit:
  "map_of (redis shelf_cached) (REDIS_KEYS_userBooks (user_id ann)) =
     Some \<lparr>val = VBooks [gatsby_book], ttl = 300\<rparr> \<and>
   fst (get_books ann shelf_cached) = BooksOk Cache (VBooks [gatsby_book])"
  by (simp add: ex_defs run_defs book_defs)

lemma shelf_updated:
  "put_book ann ''i'' gatsby shelf_cached =
     (BookUpdated gatsby_book, step (PutBook ann ''i'' gatsby) shelf_cached)"
proof -
  have "fst (put_book ann ''i'' gatsby shelf_cached) = BookUpdated gatsby_book"
    by (simp add: ex_defs run_defs book_defs)
  then show ?thesis by (simp add: prod_eq_iff)
qed

lemma shelf_deleted:
  "delete_book ann ''i'' shelf_cached =
     (BookDeleted gatsby_book, step (DeleteBook ann ''i'') shelf_cached)"
proof -
  have "fst (delete_book ann ''i'' shelf_cached) = BookDeleted gatsby_book"
    by (simp add: ex_defs run_defs book_defs)
  then show ?thesis by (simp add: prod_eq_iff)
qed

lemma shelf_cached_reach: "reachable shelf_cached"
  unfolding shelf_cached_def shelf_def
  by (intro reachable.next_event quiet_start)

lemma shelf_cached_no_faults: "no_faults shelf_cached"
  using quiet_no_faults unfolding shelf_cached_def shelf_def no_faults_def step_io_fails .

lemma quiet_queued_reach: "reachable quiet_queued"
  unfolding quiet_queued_def by (intro reachable.next_event quiet_start)

lemma quiet_queued_entry:
  "\<exists>e d. map_of (redis quiet_queued) ''bulk_books:user:u1'' = Some e \<and> val e = VQueue d \<and>
     user_id ann = userId d"
  by (simp add: quiet_queued_def ex_defs run_defs)

lemma quiet_queued_pass:
  "process_key ''bulk_books:user:u1'' quiet_queued =
     (Inr True, snd (process_key ''bulk_books:user:u1'' quiet_queued))"
proof -
  have "fst (process_key ''bulk_books:user:u1'' quiet_queued) = Inr True"
    by (simp add: quiet_queued_def ex_defs run_defs)
  then show ?thesis by (simp add: prod_eq_iff)
qed

subsection \<open>More example runs\<close>

lemma three_owners_first:
  "fst (process_key ''bulk_books:user:u1'' (io_tick three_owners)) = Inr True"
  by (simp add: three_owners_def bob_def cy_def one_book_def ex_defs run_defs)

lemma mail_down_reach: "reachable mail_down"
  unfolding mail_down_def
  by (intro reachable.intros) (simp add: initial_def quiet_world_def)

lemma dir_down_reach: "reachable dir_down"
  unfolding dir_down_def
  by (intro reachable.intros) (simp add: initial_def quiet_world_def)

lemma mail_down_redis:
  "redis mail_down = [(''bulk_status:user:u1'', \<lparr>val = VStatus ann_status, ttl = 3600\<rparr>)]"
  by (simp add: mail_down_def ex_defs run_defs ann_status_def)

lemma dir_down_redis:
  "redis dir_down = [(''bulk_status:user:u1'', \<lparr>val = VStatus ann_status, ttl = 3600\<rparr>)]"
  by (simp add: dir_down_def ex_defs run_defs ann_status_def)

lemma mail_down_io:
  "\<not> io_down mail_down \<and> \<not> io_fails mail_down (Suc (io_ctr mail_down))"
  by (simp add: mail_down_def ex_defs run_defs)

lemma mail_down_report:
  "fst (report_key ''bulk_status:user:u1'' (io_tick (io_tick mail_down))) = Inl IOError"
  by (simp add: mail_down_def ex_defs run_defs report_defs)

lemma dir_down_io: "io_fails dir_down (Suc (io_ctr dir_down))"
  by (simp add: dir_down_def ex_defs run_defs)

section \<open>The claims\<close>

text \<open>
  C1. A batch the intake accepts has between 1 and 100 items and is queued as they
  are. After the next pass of \<^verbatim>\<open>processBulkBooks\<close>, in whatever way the outside calls
  of the pass fail, the status key of the owner either is as it was before the pass or
  holds the status of this batch (the request id of the acknowledgement), in which
  \<open>successCount + failCount = totalBooks\<close> and \<open>totalBooks\<close> is the number of items
  submitted; and when no outside call fails, the pass does store that status.
\<close>

theorem C1_status_counts_add_up:
  assumes "reachable w" and "js_get body ''books'' = Inr (JArr items)"
    and "post_bulk u body w = (Accepted a, w1)"
  shows "1 \<le> length items \<and> length items \<le> 100 \<and>
     (map_of (redis (processBulkBooks w1)) (REDIS_KEYS_bulkStatus (user_id u)) =
        map_of (redis w1) (REDIS_KEYS_bulkStatus (user_id u)) \<or>
      (\<exists>sd. map_of (redis (processBulkBooks w1)) (REDIS_KEYS_bulkStatus (user_id u)) =
              Some \<lparr>val = VStatus sd, ttl = 3600\<rparr> \<and>
            st_requestId sd = ack_requestId a \<and>
            successCount sd + failCount sd = totalBooks sd \<and> totalBooks sd = length items)) \<and>
     (no_faults w \<longrightarrow>
      (\<exists>sd. map_of (redis (processBulkBooks w1)) (REDIS_KEYS_bulkStatus (user_id u)) =
              Some \<lparr>val = VStatus sd, ttl = 3600\<rparr> \<and>
            st_requestId sd = ack_requestId a \<and>
            successCount sd + failCount sd = totalBooks sd \<and> totalBooks sd = length items))"
  using tick_after_intake [OF assms] by blast

theorem C1_status_counts_add_up_witness:
  "reachable quiet_world \<and>
   js_get three_books ''books'' = Inr (JArr [item ''t1'', item ''t2'', item ''t3'']) \<and>
   post_bulk ann three_books quiet_world =
     (Accepted ann_ack, step (PostBulk ann three_books) quiet_world) \<and>
   no_faults quiet_world \<and>
   map_of (redis (processBulkBooks (step (PostBulk ann three_books) quiet_world)))
     (REDIS_KEYS_bulkStatus (user_id ann)) = Some \<lparr>val = VStatus ann_status, ttl = 3600\<rparr> \<and>
   st_requestId ann_status = ack_requestId ann_ack \<and>
   successCount ann_status + failCount ann_status = totalBooks ann_status \<and>
   totalBooks ann_status = length [item ''t1'', item ''t2'', item ''t3'']"
proof -
  have st: "map_of (redis (processBulkBooks (step (PostBulk ann three_books) quiet_world)))
     (REDIS_KEYS_bulkStatus (user_id ann)) = Some \<lparr>val = VStatus ann_status, ttl = 3600\<rparr>"
    using quiet_redis by (simp add: REDIS_KEYS_bulkStatus_def ann_def)
  from C1_status_counts_add_up [OF quiet_start quiet_items quiet_accepted] quiet_no_faults
  obtain sd where "map_of (redis (processBulkBooks (step (PostBulk ann three_books) quiet_world)))
     (REDIS_KEYS_bulkStatus (user_id ann)) = Some \<lparr>val = VStatus sd, ttl = 3600\<rparr>"
    and c: "st_requestId sd = ack_requestId ann_ack"
      "successCount sd + failCount sd = totalBooks sd"
      "totalBooks sd = length [item ''t1'', item ''t2'', item ''t3'']"
    by blast
  with st have "sd = ann_status" by simp
  with c st quiet_start quiet_items quiet_accepted quiet_no_faults show ?thesis by blast
qed

text \<open>
  C2. The loop over the books of a queue text attempts every item, whatever happens to
  the others: with \<open>i\<close> ranging over the positions of the batch in order, the items
  whose draw fails are exactly the entries added to the failure list, each as its title,
  its author and the reason; the items whose draw does not fail are exactly the books
  added to the database; the two counters count them, and every item takes its draw.
\<close>

theorem C2_item_failure_isolated:
  "t_failedBooks (fst (process_books bs t w)) = t_failedBooks t @
      map (\<lambda>i. \<lparr>fb_title = book_get (bs ! i) ''title'', fb_author = book_get (bs ! i) ''author'',
                fb_error = ''Simulated database error''\<rparr>)
        (filter (\<lambda>i. random_lt w (random_ctr w + i)) [0..<length bs]) \<and>
   booksDatabase (snd (process_books bs t w)) = booksDatabase w @
      map (\<lambda>i. bs ! i) (filter (\<lambda>i. \<not> random_lt w (random_ctr w + i)) [0..<length bs]) \<and>
   t_failCount (fst (process_books bs t w)) =
      t_failCount t + length (filter (\<lambda>i. random_lt w (random_ctr w + i)) [0..<length bs]) \<and>
   t_successCount (fst (process_books bs t w)) =
      t_successCount t + length (filter (\<lambda>i. \<not> random_lt w (random_ctr w + i)) [0..<length bs]) \<and>
   random_ctr (snd (process_books bs t w)) = random_ctr w + length bs"
  using process_books_outcome [OF surjective_pairing, of bs t w]
    process_books_tallies [OF surjective_pairing, of bs t w]
    process_books_frame [OF surjective_pairing, of bs t w]
  by simp

text \<open>
  C3. One key of a pass of \<^verbatim>\<open>processBulkBooks\<close>, in a state the server can reach and
  with the key scan answered. Whatever happened to the keys before it, the queue text
  is still there when the loop arrives at the key. The block ends normally exactly when
  none of its four calls to Redis throws; then, at the end of the pass, the queue text
  is deleted, the status is stored and the cache entry of the owner is gone. In every
  other case the \<^verbatim>\<open>catch\<close> of the key takes the error: the queue text is still there,
  unchanged, at the end of the pass, and the loop has gone on to the later keys, for
  which the same holds.
\<close>

theorem C3_queue_entry_kept_on_error:
  fixes w :: world and i :: nat
  defines "ks \<equiv> filter allBulkKeys (map fst (redis w))"
  defines "wi \<equiv> process_keys (take i ks) (io_tick w)"
  defines "r \<equiv> fst (process_key (ks ! i) wi)"
  defines "we \<equiv> processBulkBooks w"
  assumes "reachable w" and "\<not> io_down w" and "i < length ks"
  shows "\<exists>e d. map_of (redis w) (ks ! i) = Some e \<and> val e = VQueue d \<and>
           map_of (redis wi) (ks ! i) = Some e \<and>
           r = (if io_fails w (io_ctr wi) \<or> io_fails w (io_ctr wi + 1) \<or>
                   io_fails w (io_ctr wi + 2) \<or> io_fails w (io_ctr wi + 3)
                then Inl RedisError else Inr True) \<and>
           (r = Inr True \<longrightarrow>
              map_of (redis we) (ks ! i) = None \<and>
              map_of (redis we) (REDIS_KEYS_bulkStatus (userId d)) = Some (status_of d wi) \<and>
              map_of (redis we) (REDIS_KEYS_userBooks (userId d)) = None) \<and>
           (r \<noteq> Inr True \<longrightarrow> map_of (redis we) (ks ! i) = Some e)"
proof -
  have ok: "store_ok w" by (rule reachable_store_ok) fact
  have ok': "store_ok (io_tick w)" by (rule store_ok_io_tick [OF ok])
  from ok have dist: "distinct ks" by (simp add: ks_def store_ok_def distinct_map_filter)
  from scanned_keys [OF ok] \<open>i < length ks\<close>
  obtain e d where e: "map_of (redis w) (ks ! i) = Some e" "val e = VQueue d"
    unfolding ks_def by blast
  have e': "map_of (redis (io_tick w)) (ks ! i) = Some e" using e(1) by (simp add: io_tick_def)
  have we: "we = process_keys ks (io_tick w)"
    unfolding we_def ks_def by (rule processBulkBooks_scan) fact
  have f: "io_fails (io_tick w) = io_fails w" by (simp add: io_tick_def)
  note t = tick_key [OF ok' dist \<open>i < length ks\<close> e' e(2), folded wi_def r_def we, unfolded f]
  from t(1) t(2) t(3) t(4) e show ?thesis unfolding r_def by blast
qed

theorem C3_queue_entry_kept_on_error_witness:
  "reachable three_owners \<and> \<not> io_down three_owners \<and>
   1 < length (filter allBulkKeys (map fst (redis three_owners))) \<and>
   filter allBulkKeys (map fst (redis three_owners)) ! 0 = ''bulk_books:user:u1'' \<and>
   filter allBulkKeys (map fst (redis three_owners)) ! 1 = ''bulk_books:user:u2'' \<and>
   fst (process_key ''bulk_books:user:u1'' (io_tick three_owners)) = Inr True \<and>
   map_of (redis (processBulkBooks three_owners)) ''bulk_books:user:u1'' = None \<and>
   fst (process_key ''bulk_books:user:u2''
         (process_keys [''bulk_books:user:u1''] (io_tick three_owners))) = Inl RedisError \<and>
   map_of (redis (processBulkBooks three_owners)) ''bulk_books:user:u2'' =
     map_of (redis three_owners) ''bulk_books:user:u2'' \<and>
   map fst (redis (processBulkBooks three_owners)) =
     [''bulk_books:user:u2'', ''bulk_status:user:u1'', ''bulk_status:user:u3'']"
proof -
  have ks: "filter allBulkKeys (map fst (redis three_owners)) =
      [''bulk_books:user:u1'', ''bulk_books:user:u2'', ''bulk_books:user:u3'']"
    unfolding three_owners_redis by (simp add: allBulkKeys_def)
  have len: "1 < length (filter allBulkKeys (map fst (redis three_owners)))"
    unfolding ks by simp
  have len0: "0 < length (filter allBulkKeys (map fst (redis three_owners)))"
    unfolding ks by simp
  from C3_queue_entry_kept_on_error [OF three_owners_reach three_owners_down len0]
  have "fst (process_key ''bulk_books:user:u1'' (io_tick three_owners)) = Inr True \<longrightarrow>
         map_of (redis (processBulkBooks three_owners)) ''bulk_books:user:u1'' = None"
    unfolding ks by auto
  with three_owners_first
  have first: "map_of (redis (processBulkBooks three_owners)) ''bulk_books:user:u1'' = None"
    by simp
  from C3_queue_entry_kept_on_error [OF three_owners_reach three_owners_down len]
  obtain e where "map_of (redis three_owners) ''bulk_books:user:u2'' = Some e"
    and "fst (process_key ''bulk_books:user:u2''
           (process_keys [''bulk_books:user:u1''] (io_tick three_owners))) \<noteq> Inr True \<longrightarrow>
         map_of (redis (processBulkBooks three_owners)) ''bulk_books:user:u2'' = Some e"
    unfolding ks by auto
  with three_owners_second
  have "map_of (redis (processBulkBooks three_owners)) ''bulk_books:user:u2'' =
     map_of (redis three_owners) ''bulk_books:user:u2''" by simp
  with three_owners_reach three_owners_down len three_owners_second three_owners_tick first
    three_owners_first
  show ?thesis unfolding ks by simp
qed

text \<open>
  C4. One status key of a tick of \<^verbatim>\<open>generateAndSendReports\<close>, from a state the server
  can reach. When the key scan or the creation of the reports directory throws, the tick
  ends there and Redis and the outbox are as before. Otherwise, whatever happened to the
  keys before it, the status text is still there when the loop arrives at the key. The
  block ends normally exactly when none of its calls throws: the read, the PDF, the mail,
  the removal of the PDF when the cleanup is configured, and the delete. Then the mail of
  this status has been handed over (it is the last of the outbox after the key, and in the
  outbox at the end of the tick), the PDF is removed when the cleanup is configured, and
  the status text is gone at the end of the tick. In every other case the \<^verbatim>\<open>catch\<close> of
  the key takes the error and the status text is still there, unchanged, at the end of
  the tick; the loop has gone on to the later keys, for which the same holds.
\<close>

theorem C4_status_entry_kept_until_delivered:
  fixes w :: world and i :: nat
  defines "ks \<equiv> filter allStatusKeys (map fst (redis w))"
  defines "wi \<equiv> report_keys (take i ks) (io_tick (io_tick w))"
  defines "r \<equiv> fst (report_key (ks ! i) wi)"
  defines "wk \<equiv> snd (report_key (ks ! i) wi)"
  defines "we \<equiv> generateAndSendReports w"
  assumes "reachable w" and "i < length ks"
  shows "(io_down w \<or> io_fails w (Suc (io_ctr w)) \<longrightarrow> redis we = redis w \<and> outbox we = outbox w) \<and>
     (\<not> io_down w \<and> \<not> io_fails w (Suc (io_ctr w)) \<longrightarrow>
      (\<exists>e sd. map_of (redis w) (ks ! i) = Some e \<and> val e = VStatus sd \<and>
         map_of (redis wi) (ks ! i) = Some e \<and>
         (r = Inr True) =
           (\<not> io_fails w (io_ctr wi) \<and> \<not> io_fails w (io_ctr wi + 1) \<and>
            \<not> io_fails w (io_ctr wi + 2) \<and> \<not> io_fails w (io_ctr wi + 3) \<and>
            (pdf_cleanup w \<longrightarrow> \<not> io_fails w (io_ctr wi + 4))) \<and>
         (r = Inr True \<longrightarrow>
            map_of (redis we) (ks ! i) = None \<and>
            outbox wk = outbox wi @ [report_mail sd] \<and> report_mail sd \<in> set (outbox we) \<and>
            (pdf_cleanup w \<longrightarrow> report_path sd \<notin> set (files wk))) \<and>
         (r \<noteq> Inr True \<longrightarrow> (\<exists>err. r = Inl err) \<and> map_of (redis we) (ks ! i) = Some e)))"
proof (intro conjI impI)
  assume "io_down w \<or> io_fails w (Suc (io_ctr w))"
  from generateAndSendReports_abort [OF this]
  show "redis we = redis w" and "outbox we = outbox w" by (simp_all add: we_def)
next
  assume run: "\<not> io_down w \<and> \<not> io_fails w (Suc (io_ctr w))"
  have ok: "store_ok w" by (rule reachable_store_ok) fact
  from ok have dist: "distinct ks" by (simp add: ks_def store_ok_def distinct_map_filter)
  from scanned_status_keys [OF ok] \<open>i < length ks\<close>
  obtain e sd where e: "map_of (redis w) (ks ! i) = Some e" "val e = VStatus sd"
    unfolding ks_def by blast
  define k where "k = ks ! i"
  have ks: "ks = take i ks @ k # drop (Suc i) ks"
    using \<open>i < length ks\<close> by (simp add: k_def id_take_nth_drop)
  from dist have "distinct (take i ks @ k # drop (Suc i) ks)" using ks by simp
  then have notin: "k \<notin> set (take i ks)" "k \<notin> set (drop (Suc i) ks)" by auto
  from \<open>i < length ks\<close> have "ks \<noteq> []" by auto
  with generateAndSendReports_scan [of w] run
  have "we = report_keys ks (io_tick (io_tick w))" by (simp add: we_def ks_def)
  also have "\<dots> = report_keys (take i ks @ k # drop (Suc i) ks) (io_tick (io_tick w))"
    by (rule arg_cong [where f = "\<lambda>x. report_keys x (io_tick (io_tick w))", OF ks])
  finally have we: "we = report_keys (drop (Suc i) ks) wk"
    by (simp add: report_keys_append wk_def wi_def k_def)
  have ei: "map_of (redis wi) k = Some e"
    using report_keys_untouched [OF notin(1), of "io_tick (io_tick w)"] e(1)
    by (simp add: wi_def k_def io_tick_def)
  have fl: "io_fails wi = io_fails w" "pdf_cleanup wi = pdf_cleanup w"
    by (simp_all add: wi_def io_tick_def)
  have rk: "report_key k wi = (r, wk)" by (simp add: r_def wk_def k_def)
  note t = report_key_status [OF ei e(2) rk, unfolded fl]
  have post: "map_of (redis we) k = map_of (redis wk) k"
    unfolding we by (rule report_keys_untouched [OF notin(2)])
  have fin: "map_of (redis we) k = None \<and> outbox wk = outbox wi @ [report_mail sd] \<and>
       report_mail sd \<in> set (outbox we) \<and> (pdf_cleanup w \<longrightarrow> report_path sd \<notin> set (files wk))"
    if "r = Inr True"
  proof -
    from t(3) [OF that] have d: "redis wk = AList.delete k (redis wi)"
      and o: "outbox wk = outbox wi @ [report_mail sd]"
      and c: "pdf_cleanup w \<longrightarrow> report_path sd \<notin> set (files wk)" by auto
    from report_keys_outbox [of "drop (Suc i) ks" wk] obtain ms where "outbox we = outbox wk @ ms"
      unfolding we by blast
    with o have "report_mail sd \<in> set (outbox we)" by simp
    moreover have "map_of (redis we) k = None" by (simp add: post d delete_conv')
    ultimately show ?thesis using o c by blast
  qed
  have kept: "(\<exists>err. r = Inl err) \<and> map_of (redis we) k = Some e" if "r \<noteq> Inr True"
    using t(2) [OF that] ei by (simp add: post)
  from e ei t(1) fin kept
  show "\<exists>e sd. map_of (redis w) (ks ! i) = Some e \<and> val e = VStatus sd \<and>
         map_of (redis wi) (ks ! i) = Some e \<and>
         (r = Inr True) =
           (\<not> io_fails w (io_ctr wi) \<and> \<not> io_fails w (io_ctr wi + 1) \<and>
            \<not> io_fails w (io_ctr wi + 2) \<and> \<not> io_fails w (io_ctr wi + 3) \<and>
            (pdf_cleanup w \<longrightarrow> \<not> io_fails w (io_ctr wi + 4))) \<and>
         (r = Inr True \<longrightarrow>
            map_of (redis we) (ks ! i) = None \<and>
            outbox wk = outbox wi @ [report_mail sd] \<and> report_mail sd \<in> set (outbox we) \<and>
            (pdf_cleanup w \<longrightarrow> report_path sd \<notin> set (files wk))) \<and>
         (r \<noteq> Inr True \<longrightarrow> (\<exists>err. r = Inl err) \<and> map_of (redis we) (ks ! i) = Some e)"
    unfolding k_def by blast
qed

theorem C4_status_entry_kept_until_delivered_witness:
  "reachable quiet_processed \<and>
   0 < length (filter allStatusKeys (map fst (redis quiet_processed))) \<and>
   \<not> io_down quiet_processed \<and> \<not> io_fails quiet_processed (Suc (io_ctr quiet_processed)) \<and>
   pdf_cleanup quiet_processed \<and>
   map_of (redis quiet_processed) ''bulk_status:user:u1'' =
     Some \<lparr>val = VStatus ann_status, ttl = 3600\<rparr> \<and>
   fst (report_key ''bulk_status:user:u1'' (io_tick (io_tick quiet_processed))) = Inr True \<and>
   map_of (redis (generateAndSendReports quiet_processed)) ''bulk_status:user:u1'' = None \<and>
   report_mail ann_status \<in> set (outbox (generateAndSendReports quiet_processed)) \<and>
   report_path ann_status \<notin>
     set (files (snd (report_key ''bulk_status:user:u1'' (io_tick (io_tick quiet_processed))))) \<and>
   reachable mail_down \<and> 0 < length (filter allStatusKeys (map fst (redis mail_down))) \<and>
   \<not> io_down mail_down \<and> \<not> io_fails mail_down (Suc (io_ctr mail_down)) \<and>
   fst (report_key ''bulk_status:user:u1'' (io_tick (io_tick mail_down))) = Inl IOError \<and>
   map_of (redis (generateAndSendReports mail_down)) ''bulk_status:user:u1'' =
     Some \<lparr>val = VStatus ann_status, ttl = 3600\<rparr> \<and>
   reachable dir_down \<and> 0 < length (filter allStatusKeys (map fst (redis dir_down))) \<and>
   io_fails dir_down (Suc (io_ctr dir_down)) \<and>
   redis (generateAndSendReports dir_down) = redis dir_down \<and>
   outbox (generateAndSendReports dir_down) = outbox dir_down"
proof -
  have ks: "filter allStatusKeys (map fst (redis quiet_processed)) = [''bulk_status:user:u1'']"
    unfolding quiet_processed_redis by (simp add: allStatusKeys_def)
  have len: "0 < length (filter allStatusKeys (map fst (redis quiet_processed)))"
    unfolding ks by simp
  have m: "map_of (redis quiet_processed) ''bulk_status:user:u1'' =
     Some \<lparr>val = VStatus ann_status, ttl = 3600\<rparr>"
    unfolding quiet_processed_redis by simp
  have cl: "pdf_cleanup quiet_processed"
    by (simp add: quiet_processed_def ex_defs run_defs)
  from C4_status_entry_kept_until_delivered [OF quiet_processed_reach len] quiet_processed_io
  obtain e sd where "map_of (redis quiet_processed) ''bulk_status:user:u1'' = Some e"
    and "val e = VStatus sd"
    and "fst (report_key ''bulk_status:user:u1'' (io_tick (io_tick quiet_processed))) = Inr True \<longrightarrow>
         map_of (redis (generateAndSendReports quiet_processed)) ''bulk_status:user:u1'' = None \<and>
         report_mail sd \<in> set (outbox (generateAndSendReports quiet_processed)) \<and>
         (pdf_cleanup quiet_processed \<longrightarrow> report_path sd \<notin>
            set (files (snd (report_key ''bulk_status:user:u1'' (io_tick (io_tick quiet_processed))))))"
    unfolding ks by auto
  with m quiet_processed_report cl
  have 1: "map_of (redis (generateAndSendReports quiet_processed)) ''bulk_status:user:u1'' = None \<and>
         report_mail ann_status \<in> set (outbox (generateAndSendReports quiet_processed)) \<and>
         report_path ann_status \<notin>
            set (files (snd (report_key ''bulk_status:user:u1'' (io_tick (io_tick quiet_processed)))))"
    by auto
  have ks2: "filter allStatusKeys (map fst (redis mail_down)) = [''bulk_status:user:u1'']"
    unfolding mail_down_redis by (simp add: allStatusKeys_def)
  have len2: "0 < length (filter allStatusKeys (map fst (redis mail_down)))"
    unfolding ks2 by simp
  have m2: "map_of (redis mail_down) ''bulk_status:user:u1'' =
     Some \<lparr>val = VStatus ann_status, ttl = 3600\<rparr>"
    unfolding mail_down_redis by simp
  from C4_status_entry_kept_until_delivered [OF mail_down_reach len2] mail_down_io
  obtain e2 where "map_of (redis mail_down) ''bulk_status:user:u1'' = Some e2"
    and "fst (report_key ''bulk_status:user:u1'' (io_tick (io_tick mail_down))) \<noteq> Inr True \<longrightarrow>
         map_of (redis (generateAndSendReports mail_down)) ''bulk_status:user:u1'' = Some e2"
    unfolding ks2 by auto
  with m2 mail_down_report
  have 2: "map_of (redis (generateAndSendReports mail_down)) ''bulk_status:user:u1'' =
     Some \<lparr>val = VStatus ann_status, ttl = 3600\<rparr>" by simp
  have ks3: "filter allStatusKeys (map fst (redis dir_down)) = [''bulk_status:user:u1'']"
    unfolding dir_down_redis by (simp add: allStatusKeys_def)
  have len3: "0 < length (filter allStatusKeys (map fst (redis dir_down)))"
    unfolding ks3 by simp
  from C4_status_entry_kept_until_delivered [OF dir_down_reach len3] dir_down_io
  have 3: "redis (generateAndSendReports dir_down) = redis dir_down \<and>
     outbox (generateAndSendReports dir_down) = outbox dir_down" by blast
  from 1 2 3 quiet_processed_reach len quiet_processed_io m quiet_processed_report cl
    mail_down_reach len2 mail_down_io mail_down_report dir_down_reach len3 dir_down_io
  show ?thesis by blast
qed

text \<open>
  C5. The intake at the body \<^verbatim>\<open>{"books": [null]}\<close>: the item has neither title nor
  author, and the validation loop, reading \<^verbatim>\<open>book.title\<close> of \<^verbatim>\<open>null\<close>, throws; the
  answer is the 500 of the outer \<^verbatim>\<open>catch\<close>, which names no index, and nothing is queued.
  An object without an author at the same place gets the 400 that reports index 0. (The
  sizes 0, 101 and 100 and the items that are not \<^verbatim>\<open>null\<close> are in the lemmas
  \<open>post_bulk_empty\<close>, \<open>post_bulk_over_maximum\<close>, \<open>post_bulk_valid\<close> and
  \<open>post_bulk_missing_fields\<close>.)
\<close>

theorem C5_null_item_internal_error:
  "\<not> has_fields JNull \<and>
   post_bulk u (JObj [(''books'', JArr [JNull])]) w = (InternalServerError, w) \<and>
   post_bulk u (JObj [(''books'', JArr [JObj [(''title'', JStr ''t'')]])]) w =
     (BadRequest (MissingFields 0), w)"
  by (simp add: post_bulk_def has_fields_def)

text \<open>
  C6. Each of the four operations that change an owner's books has deleted the owner's
  cache key by the time it reports success: \<^verbatim>\<open>POST /books\<close> with its 201,
  \<^verbatim>\<open>PUT /books/:id\<close> and \<^verbatim>\<open>DELETE /books/:id\<close> with their 200, and the pass of the
  batch processor over a queue text when the block of the key ends normally (the books
  it adds all belong to the owner whose cache it deletes). In the state they leave, a
  read of that owner is not served from the cache: it answers 500 when Redis throws and
  otherwise the owner's books of the database, tagged as coming from the database.
  And in a run of the server in which no outside call fails, whatever a read serves
  from the cache is the owner's current list of the database.
\<close>

theorem C6_mutations_invalidate_cache:
  "(post_book u f w = (BookCreated b, w') \<longrightarrow>
      map_of (redis w') (REDIS_KEYS_userBooks (user_id u)) = None \<and> reads_fresh u w') \<and>
   (put_book u i f w = (BookUpdated b, w') \<longrightarrow>
      map_of (redis w') (REDIS_KEYS_userBooks (user_id u)) = None \<and> reads_fresh u w') \<and>
   (delete_book u i w = (BookDeleted b, w') \<longrightarrow>
      map_of (redis w') (REDIS_KEYS_userBooks (user_id u)) = None \<and> reads_fresh u w') \<and>
   (reachable w \<and> map_of (redis w) k = Some e \<and> val e = VQueue d \<and>
    process_key k w = (Inr True, w') \<and> user_id u = userId d \<longrightarrow>
      map_of (redis w') (REDIS_KEYS_userBooks (userId d)) = None \<and> reads_fresh u w' \<and>
      (\<exists>added. booksDatabase w' = booksDatabase w @ added \<and>
         list_all (\<lambda>b. book_userId b = userId d) added)) \<and>
   (reachable w \<and> no_faults w \<and> fst (get_books u w) = BooksOk Cache v \<longrightarrow>
      v = own_books (user_id u) w)"
proof (intro conjI impI)
  assume "post_book u f w = (BookCreated b, w')"
  from post_book_created [OF this]
  show "map_of (redis w') (REDIS_KEYS_userBooks (user_id u)) = None" by (simp add: delete_conv')
  then show "reads_fresh u w'" by (rule get_books_absent)
next
  assume "put_book u i f w = (BookUpdated b, w')"
  from put_book_updated [OF this]
  show "map_of (redis w') (REDIS_KEYS_userBooks (user_id u)) = None" by (simp add: delete_conv')
  then show "reads_fresh u w'" by (rule get_books_absent)
next
  assume "delete_book u i w = (BookDeleted b, w')"
  from delete_book_deleted [OF this]
  show "map_of (redis w') (REDIS_KEYS_userBooks (user_id u)) = None" by (simp add: delete_conv')
  then show "reads_fresh u w'" by (rule get_books_absent)
next
  assume a: "reachable w \<and> map_of (redis w) k = Some e \<and> val e = VQueue d \<and>
    process_key k w = (Inr True, w') \<and> user_id u = userId d"
  then have e: "map_of (redis w) k = Some e" "val e = VQueue d"
    and p: "process_key k w = (Inr True, w')" and u: "user_id u = userId d" by simp_all
  from a have ok: "store_ok w" by (simp add: reachable_store_ok)
  from store_okD [OF ok e(1)] e(2)
  have own: "list_all (\<lambda>b. book_userId b = userId d) (books d)" by (simp add: entry_ok_def)
  note c = process_key_completed [OF e p]
  from c show n: "map_of (redis w') (REDIS_KEYS_userBooks (userId d)) = None"
    by (simp add: delete_conv')
  from n u show "reads_fresh u w'" by (intro get_books_absent) simp
  from own have "list_all (\<lambda>b. book_userId b = userId d) (map (\<lambda>i. books d ! i)
          (filter (\<lambda>i. \<not> random_lt w (random_ctr w + i)) [0..<length (books d)]))"
    by (auto simp: list_all_iff)
  with c show "\<exists>added. booksDatabase w' = booksDatabase w @ added \<and>
         list_all (\<lambda>b. book_userId b = userId d) added" by blast
next
  assume a: "reachable w \<and> no_faults w \<and> fst (get_books u w) = BooksOk Cache v"
  then have "coherent w" by (simp add: reachable_coherent)
  moreover from a get_books_cached [of u w v]
  obtain e where "map_of (redis w) (REDIS_KEYS_userBooks (user_id u)) = Some e" "val e = v"
    by blast
  ultimately show "v = own_books (user_id u) w" by (auto simp: coherent_def)
qed

theorem C6_mutations_invalidate_cache_witness:
  "post_book ann gatsby quiet_world = (BookCreated gatsby_book, shelf) \<and>
   map_of (redis shelf) (REDIS_KEYS_userBooks (user_id ann)) = None \<and> reads_fresh ann shelf \<and>
   map_of (redis shelf_cached) (REDIS_KEYS_userBooks (user_id ann)) =
     Some \<lparr>val = VBooks [gatsby_book], ttl = 300\<rparr> \<and>
   put_book ann ''i'' gatsby shelf_cached =
     (BookUpdated gatsby_book, step (PutBook ann ''i'' gatsby) shelf_cached) \<and>
   map_of (redis (step (PutBook ann ''i'' gatsby) shelf_cached))
     (REDIS_KEYS_userBooks (user_id ann)) = None \<and>
   reads_fresh ann (step (PutBook ann ''i'' gatsby) shelf_cached) \<and>
   delete_book ann ''i'' shelf_cached =
     (BookDeleted gatsby_book, step (DeleteBook ann ''i'') shelf_cached) \<and>
   map_of (redis (step (DeleteBook ann ''i'') shelf_cached))
     (REDIS_KEYS_userBooks (user_id ann)) = None \<and>
   reads_fresh ann (step (DeleteBook ann ''i'') shelf_cached) \<and>
   reachable quiet_queued \<and>
   process_key ''bulk_books:user:u1'' quiet_queued =
     (Inr True, snd (process_key ''bulk_books:user:u1'' quiet_queued)) \<and>
   map_of (redis (snd (process_key ''bulk_books:user:u1'' quiet_queued)))
     (REDIS_KEYS_userBooks (user_id ann)) = None \<and>
   reads_fresh ann (snd (process_key ''bulk_books:user:u1'' quiet_queued)) \<and>
   reachable shelf_cached \<and> no_faults shelf_cached \<and>
   fst (get_books ann shelf_cached) = BooksOk Cache (VBooks [gatsby_book]) \<and>
   VBooks [gatsby_book] = own_books (user_id ann) shelf_cached"
proof -
  have 1: "map_of (redis shelf) (REDIS_KEYS_userBooks (user_id ann)) = None \<and> reads_fresh ann shelf"
    using C6_mutations_invalidate_cache [of ann gatsby quiet_world gatsby_book shelf]
      shelf_created by blast
  have 2: "map_of (redis (step (PutBook ann ''i'' gatsby) shelf_cached))
       (REDIS_KEYS_userBooks (user_id ann)) = None \<and>
     reads_fresh ann (step (PutBook ann ''i'' gatsby) shelf_cached)"
    using C6_mutations_invalidate_cache [of ann gatsby shelf_cached gatsby_book
        "step (PutBook ann ''i'' gatsby) shelf_cached" "''i''"]
      shelf_updated by blast
  have 3: "map_of (redis (step (DeleteBook ann ''i'') shelf_cached))
       (REDIS_KEYS_userBooks (user_id ann)) = None \<and>
     reads_fresh ann (step (DeleteBook ann ''i'') shelf_cached)"
    using C6_mutations_invalidate_cache [of ann gatsby shelf_cached gatsby_book
        "step (DeleteBook ann ''i'') shelf_cached" "''i''"]
      shelf_deleted by blast
  from quiet_queued_entry obtain e d
    where e: "map_of (redis quiet_queued) ''bulk_books:user:u1'' = Some e" "val e = VQueue d"
      "user_id ann = userId d" by blast
  have 4: "map_of (redis (snd (process_key ''bulk_books:user:u1'' quiet_queued)))
       (REDIS_KEYS_userBooks (user_id ann)) = None \<and>
     reads_fresh ann (snd (process_key ''bulk_books:user:u1'' quiet_queued))"
    using C6_mutations_invalidate_cache [of ann gatsby quiet_queued gatsby_book
        "snd (process_key ''bulk_books:user:u1'' quiet_queued)" "''i''" "''bulk_books:user:u1''" e d]
      quiet_queued_reach e quiet_queued_pass by simp
  have 5: "VBooks [gatsby_book] = own_books (user_id ann) shelf_cached"
    using C6_mutations_invalidate_cache [of ann gatsby shelf_cached gatsby_book shelf_cached "''i''"
        "''k''" e d "VBooks [gatsby_book]"]
      shelf_cached_reach shelf_cached_no_faults shelf_cached_hit by blast
  from 1 2 3 4 5 shelf_created shelf_cached_hit shelf_updated shelf_deleted quiet_queued_reach
    quiet_queued_pass shelf_cached_reach shelf_cached_no_faults
  show ?thesis by blast
qed

text \<open>
  C7, as amended. A pass over a queue text generates no identifier: the supply is where
  it was. The books it adds to the database are books of the queue text, unchanged and
  in order (those whose draw does not fail, or none when the read of the key throws), so
  they carry the identifiers the intake gave them once. A retry of the batch therefore
  adds records with the same identifiers again.
\<close>

theorem C7_retry_reuses_intake_identifiers:
  assumes "map_of (redis w) k = Some e" and "val e = VQueue d"
  shows "uuid_ctr (snd (process_key k w)) = uuid_ctr w \<and>
     (booksDatabase (snd (process_key k w)) = booksDatabase w \<or>
      booksDatabase (snd (process_key k w)) = booksDatabase w @
        map (\<lambda>i. books d ! i)
          (filter (\<lambda>i. \<not> random_lt w (random_ctr w + i)) [0..<length (books d)]))"
  using process_key_database [OF assms] .

theorem C7_retry_reuses_intake_identifiers_witness:
  "map_of (redis retry_queued) ''bulk_books:user:u1'' = Some \<lparr>val = VQueue retry_batch, ttl = 7200\<rparr> \<and>
   uuid_ctr (snd (process_key ''bulk_books:user:u1'' retry_queued)) = uuid_ctr retry_queued \<and>
   (booksDatabase (snd (process_key ''bulk_books:user:u1'' retry_queued)) =
      booksDatabase retry_queued \<or>
    booksDatabase (snd (process_key ''bulk_books:user:u1'' retry_queued)) =
      booksDatabase retry_queued @
        map (\<lambda>i. books retry_batch ! i)
          (filter (\<lambda>i. \<not> random_lt retry_queued (random_ctr retry_queued + i))
             [0..<length (books retry_batch)])) \<and>
   map book_id (books retry_batch) = [''i''] \<and>
   map book_id (booksDatabase (snd (process_key ''bulk_books:user:u1'' retry_queued))) = [''i'']"
proof -
  have "map book_id (booksDatabase (snd (process_key ''bulk_books:user:u1'' retry_queued))) = [''i'']"
    by (simp add: retry_queued_def retry_world_def ex_defs run_defs one_book_def)
  moreover have "map book_id (books retry_batch) = [''i'']" by (simp add: retry_batch_def)
  ultimately show ?thesis
    using C7_retry_reuses_intake_identifiers [OF retry_queued_redis, of retry_batch]
      retry_queued_redis
    by simp
qed

text \<open>
  C7, as stated, fails: a batch of one book whose first pass throws after the book is
  added, and whose second pass runs through. The identifier supply is injective and
  neither pass takes from it; the database ends with two records of the same identifier.
\<close>

theorem C7_fresh_identifier_counterexample:
  "inj (uuid retry_world) \<and>
   map book_id (booksDatabase retry_queued) = [] \<and>
   map book_id (booksDatabase (step BulkTick retry_queued)) = [''i''] \<and>
   map book_id (booksDatabase retry_twice) = [''i'', ''i''] \<and>
   uuid_ctr retry_twice = uuid_ctr retry_queued \<and>
   \<not> distinct (map book_id (booksDatabase retry_twice))"
proof -
  have "inj (\<lambda>n. replicate (Suc n) CHR ''i'')"
  proof (rule injI)
    fix x y :: nat
    assume "replicate (Suc x) CHR ''i'' = replicate (Suc y) CHR ''i''"
    then have "length (replicate (Suc x) CHR ''i'') = length (replicate (Suc y) CHR ''i'')"
      by (rule arg_cong)
    then show "x = y" by simp
  qed
  then have "inj (uuid retry_world)" by (simp add: retry_world_def quiet_world_def)
  moreover have "map book_id (booksDatabase retry_queued) = []"
    by (simp add: retry_queued_def retry_world_def ex_defs run_defs one_book_def)
  moreover have "map book_id (booksDatabase (step BulkTick retry_queued)) = [''i'']"
    by (simp add: retry_queued_def retry_world_def ex_defs run_defs one_book_def)
  moreover have "map book_id (booksDatabase retry_twice) = [''i'', ''i'']"
    by (simp add: retry_twice_def retry_queued_def retry_world_def ex_defs run_defs one_book_def)
  moreover have "uuid_ctr retry_twice = uuid_ctr retry_queued"
    by (simp add: retry_twice_def retry_queued_def retry_world_def ex_defs run_defs one_book_def)
  ultimately show ?thesis by simp
qed

text \<open>
  C8. \<^verbatim>\<open>GET /books/queue\<close> in a state the server can reach, with its calls to Redis
  answered. The handler changes nothing: Redis, the database, the files and the outbox
  are as before. With neither a queue text nor a status text for the owner the answer is
  the view \<open>NoQueue\<close> (a success, not an error); with a queue text it is \<open>Queued\<close> with
  the number of books, the request id, the queueing time and the seconds left, whether
  or not a status text exists as well; with only a status text it is
  \<open>ProcessedAwaitingReport\<close> with the request id, the three counts, the processing time
  and the seconds left.
\<close>

theorem C8_status_query_shapes:
  assumes "reachable w"
    and "\<not> io_fails w (io_ctr w)" "\<not> io_fails w (io_ctr w + 1)" "\<not> io_fails w (io_ctr w + 2)"
  shows "redis (snd (get_queue u w)) = redis w \<and>
     booksDatabase (snd (get_queue u w)) = booksDatabase w \<and>
     files (snd (get_queue u w)) = files w \<and> outbox (snd (get_queue u w)) = outbox w \<and>
     (map_of (redis w) (REDIS_KEYS_bulkBooks (user_id u)) = None \<and>
      map_of (redis w) (REDIS_KEYS_bulkStatus (user_id u)) = None \<longrightarrow>
        fst (get_queue u w) = QueueOk NoQueue) \<and>
     (\<forall>e. map_of (redis w) (REDIS_KEYS_bulkBooks (user_id u)) = Some e \<longrightarrow>
        (\<exists>d. val e = VQueue d \<and>
           fst (get_queue u w) =
             QueueOk (Queued (length (books d)) (requestId d) (queuedAt d) (Seconds (ttl e))))) \<and>
     (\<forall>e. map_of (redis w) (REDIS_KEYS_bulkBooks (user_id u)) = None \<and>
          map_of (redis w) (REDIS_KEYS_bulkStatus (user_id u)) = Some e \<longrightarrow>
        (\<exists>sd. val e = VStatus sd \<and>
           fst (get_queue u w) =
             QueueOk (ProcessedAwaitingReport (st_requestId sd) (totalBooks sd) (successCount sd)
               (failCount sd) (processedAt sd) (Seconds (ttl e)))))"
proof -
  have ok: "store_ok w" by (rule reachable_store_ok) fact
  have q: "\<exists>d. val e = VQueue d \<and>
           fst (get_queue u w) =
             QueueOk (Queued (length (books d)) (requestId d) (queuedAt d) (Seconds (ttl e)))"
    if e: "map_of (redis w) (REDIS_KEYS_bulkBooks (user_id u)) = Some e" for e
  proof -
    from bulk_key_entry [OF ok _ e] obtain d where d: "val e = VQueue d"
      by (auto simp: allBulkKeys_iff)
    from store_okD [OF ok e] have "0 < ttl e" by simp
    with get_queue_queued [OF assms(2-4) e d] d show ?thesis by (simp add: expiresIn_def)
  qed
  have s: "\<exists>sd. val e = VStatus sd \<and>
           fst (get_queue u w) =
             QueueOk (ProcessedAwaitingReport (st_requestId sd) (totalBooks sd) (successCount sd)
               (failCount sd) (processedAt sd) (Seconds (ttl e)))"
    if n: "map_of (redis w) (REDIS_KEYS_bulkBooks (user_id u)) = None"
      and e: "map_of (redis w) (REDIS_KEYS_bulkStatus (user_id u)) = Some e" for e
  proof -
    from status_key_entry [OF ok _ e] obtain sd where sd: "val e = VStatus sd"
      by (auto simp: allStatusKeys_iff)
    from store_okD [OF ok e] have "0 < ttl e" by simp
    with get_queue_status [OF assms(2-4) n e sd] sd show ?thesis by (simp add: expiresIn_def)
  qed
  from get_queue_frame [OF surjective_pairing, of u w] get_queue_none [OF assms(2,3), of u] q s
  show ?thesis by blast
qed

theorem C8_status_query_shapes_witness:
  "reachable quiet_world \<and> \<not> io_fails quiet_world (io_ctr quiet_world) \<and>
   \<not> io_fails quiet_world (io_ctr quiet_world + 1) \<and>
   \<not> io_fails quiet_world (io_ctr quiet_world + 2) \<and>
   map_of (redis quiet_world) (REDIS_KEYS_bulkBooks (user_id ann)) = None \<and>
   map_of (redis quiet_world) (REDIS_KEYS_bulkStatus (user_id ann)) = None \<and>
   fst (get_queue ann quiet_world) = QueueOk NoQueue \<and>
   reachable quiet_both \<and> \<not> io_fails quiet_both (io_ctr quiet_both) \<and>
   \<not> io_fails quiet_both (io_ctr quiet_both + 1) \<and>
   \<not> io_fails quiet_both (io_ctr quiet_both + 2) \<and>
   map fst (redis quiet_both) = [''bulk_status:user:u1'', ''bulk_books:user:u1''] \<and>
   fst (get_queue ann quiet_both) = QueueOk (Queued 1 ''iiiiii'' 5 (Seconds 7200)) \<and>
   redis (snd (get_queue ann quiet_both)) = redis quiet_both \<and>
   reachable quiet_processed \<and> \<not> io_fails quiet_processed (io_ctr quiet_processed) \<and>
   \<not> io_fails quiet_processed (io_ctr quiet_processed + 1) \<and>
   \<not> io_fails quiet_processed (io_ctr quiet_processed + 2) \<and>
   map_of (redis quiet_processed) (REDIS_KEYS_bulkBooks (user_id ann)) = None \<and>
   map_of (redis quiet_processed) (REDIS_KEYS_bulkStatus (user_id ann)) =
     Some \<lparr>val = VStatus ann_status, ttl = 3600\<rparr> \<and>
   fst (get_queue ann quiet_processed) =
     QueueOk (ProcessedAwaitingReport (st_requestId ann_status) (totalBooks ann_status)
       (successCount ann_status) (failCount ann_status) (processedAt ann_status) (Seconds 3600))"
proof -
  have io0: "\<not> io_fails quiet_world (io_ctr quiet_world)"
    "\<not> io_fails quiet_world (io_ctr quiet_world + 1)"
    "\<not> io_fails quiet_world (io_ctr quiet_world + 2)"
    by (simp_all add: quiet_world_def)
  have n0: "map_of (redis quiet_world) (REDIS_KEYS_bulkBooks (user_id ann)) = None"
    "map_of (redis quiet_world) (REDIS_KEYS_bulkStatus (user_id ann)) = None"
    by (simp_all add: quiet_world_def)
  from C8_status_query_shapes [OF quiet_start io0, of ann] n0
  have v0: "fst (get_queue ann quiet_world) = QueueOk NoQueue" by blast
  have io1: "\<not> io_fails quiet_both (io_ctr quiet_both)"
    "\<not> io_fails quiet_both (io_ctr quiet_both + 1)"
    "\<not> io_fails quiet_both (io_ctr quiet_both + 2)"
    using quiet_both_io by simp_all
  from C8_status_query_shapes [OF quiet_both_reach io1, of ann]
  have f1: "redis (snd (get_queue ann quiet_both)) = redis quiet_both" by blast
  have io2: "\<not> io_fails quiet_processed (io_ctr quiet_processed)"
    "\<not> io_fails quiet_processed (io_ctr quiet_processed + 1)"
    "\<not> io_fails quiet_processed (io_ctr quiet_processed + 2)"
    using quiet_processed_io3 by simp_all
  have n2: "map_of (redis quiet_processed) (REDIS_KEYS_bulkBooks (user_id ann)) = None"
    "map_of (redis quiet_processed) (REDIS_KEYS_bulkStatus (user_id ann)) =
       Some \<lparr>val = VStatus ann_status, ttl = 3600\<rparr>"
    unfolding quiet_processed_redis
    by (simp_all add: REDIS_KEYS_bulkBooks_def REDIS_KEYS_bulkStatus_def ann_def)
  from C8_status_query_shapes [OF quiet_processed_reach io2, of ann] n2
  have v2: "fst (get_queue ann quiet_processed) =
     QueueOk (ProcessedAwaitingReport (st_requestId ann_status) (totalBooks ann_status)
       (successCount ann_status) (failCount ann_status) (processedAt ann_status) (Seconds 3600))"
    by auto
  from quiet_start io0 n0 v0 quiet_both_reach io1 quiet_both_view f1 quiet_processed_reach io2 n2 v2
  show ?thesis by blast
qed

text \<open>
  C9. No owner has more than one queue text in a state the server can reach. After two
  accepted submissions of the same owner with no pass in between, the owner's only queue
  text is the one built from the items of the second body alone; the status a following
  pass stores for the owner counts the items of the second body, and it does store it
  when no outside call fails.
\<close>

theorem C9_second_submission_replaces:
  assumes "reachable w" and "post_bulk u body1 w = (Accepted a1, w1)"
    and "js_get body2 ''books'' = Inr (JArr items2)"
    and "post_bulk u body2 w1 = (Accepted a2, w2)"
  shows "length (queue_entries uid w2) \<le> 1 \<and>
     queue_entries (user_id u) w2 =
       [(REDIS_KEYS_bulkBooks (user_id u), \<lparr>val = VQueue (make_bulkData u items2 w1), ttl = 7200\<rparr>)] \<and>
     length (books (make_bulkData u items2 w1)) = length items2 \<and>
     (map_of (redis (processBulkBooks w2)) (REDIS_KEYS_bulkStatus (user_id u)) =
        map_of (redis w2) (REDIS_KEYS_bulkStatus (user_id u)) \<or>
      (\<exists>sd. map_of (redis (processBulkBooks w2)) (REDIS_KEYS_bulkStatus (user_id u)) =
              Some \<lparr>val = VStatus sd, ttl = 3600\<rparr> \<and>
            st_requestId sd = ack_requestId a2 \<and> totalBooks sd = length items2)) \<and>
     (no_faults w \<longrightarrow>
      (\<exists>sd. map_of (redis (processBulkBooks w2)) (REDIS_KEYS_bulkStatus (user_id u)) =
              Some \<lparr>val = VStatus sd, ttl = 3600\<rparr> \<and>
            st_requestId sd = ack_requestId a2 \<and> totalBooks sd = length items2))"
proof -
  have w1: "w1 = step (PostBulk u body1) w" by (simp add: assms(2))
  have r1: "reachable w1" unfolding w1 by (rule reachable.next_event [OF assms(1)])
  have w2: "w2 = step (PostBulk u body2) w1" by (simp add: assms(4))
  have ok2: "store_ok w2" unfolding w2 by (rule reachable_store_ok [OF reachable.next_event [OF r1]])
  have f: "no_faults w1 = no_faults w"
    using post_bulk_accepted [OF assms(2)] by (auto simp: no_faults_def)
  note t = tick_after_intake [OF r1 assms(3) assms(4)]
  let ?e = "\<lparr>val = VQueue (make_bulkData u items2 w1), ttl = 7200\<rparr>"
  from t have m: "map_of (redis w2) (REDIS_KEYS_bulkBooks (user_id u)) = Some ?e" by blast
  then have mem: "(REDIS_KEYS_bulkBooks (user_id u), ?e) \<in> set (queue_entries (user_id u) w2)"
    by (auto simp: queue_entries_def make_bulkData_def dest: map_of_SomeD)
  have le: "length (queue_entries x w2) \<le> 1" for x by (rule queue_entries_le1 [OF ok2])
  from mem le [of "user_id u"]
  have q: "queue_entries (user_id u) w2 = [(REDIS_KEYS_bulkBooks (user_id u), ?e)]"
    by (cases "queue_entries (user_id u) w2") auto
  have len: "length (books (make_bulkData u items2 w1)) = length items2"
    by (simp add: make_bulkData_def)
  from t f le [of uid] q len show ?thesis by blast
qed

theorem C9_second_submission_replaces_witness:
  "reachable quiet_world \<and>
   post_bulk ann one_book quiet_world =
     (Accepted ann_ack1, step (PostBulk ann one_book) quiet_world) \<and>
   js_get three_books ''books'' = Inr (JArr [item ''t1'', item ''t2'', item ''t3'']) \<and>
   post_bulk ann three_books (step (PostBulk ann one_book) quiet_world) =
     (Accepted ann_ack2, step (PostBulk ann three_books) (step (PostBulk ann one_book) quiet_world)) \<and>
   no_faults quiet_world \<and>
   map fst (queue_entries (user_id ann)
     (step (PostBulk ann three_books) (step (PostBulk ann one_book) quiet_world))) =
     [REDIS_KEYS_bulkBooks (user_id ann)] \<and>
   (\<exists>sd. map_of (redis (processBulkBooks
            (step (PostBulk ann three_books) (step (PostBulk ann one_book) quiet_world))))
          (REDIS_KEYS_bulkStatus (user_id ann)) = Some \<lparr>val = VStatus sd, ttl = 3600\<rparr> \<and>
        st_requestId sd = ack_requestId ann_ack2 \<and>
        totalBooks sd = length [item ''t1'', item ''t2'', item ''t3''])"
proof -
  note t = C9_second_submission_replaces [OF quiet_start twice_first quiet_items twice_second,
      of "user_id ann"]
  from t have "map fst (queue_entries (user_id ann)
     (step (PostBulk ann three_books) (step (PostBulk ann one_book) quiet_world))) =
     [REDIS_KEYS_bulkBooks (user_id ann)]" by simp
  moreover from t quiet_no_faults
  have "\<exists>sd. map_of (redis (processBulkBooks
            (step (PostBulk ann three_books) (step (PostBulk ann one_book) quiet_world))))
          (REDIS_KEYS_bulkStatus (user_id ann)) = Some \<lparr>val = VStatus sd, ttl = 3600\<rparr> \<and>
        st_requestId sd = ack_requestId ann_ack2 \<and>
        totalBooks sd = length [item ''t1'', item ''t2'', item ''t3'']"
    by blast
  ultimately show ?thesis
    using quiet_start twice_first quiet_items twice_second quiet_no_faults by blast
qed

text \<open>
  C10. In every state the server can reach, a status text in Redis has
  \<open>totalBooks \<ge> 1\<close>: the intake queues no empty batch, and the processor writes the
  number of queued books. So the success rate of the report divides by a non-zero
  total and is a proper percentage, neither NaN nor Infinity.
\<close>

theorem C10_status_total_positive:
  assumes "reachable w" and "map_of (redis w) k = Some e" and "val e = VStatus sd"
  shows "1 \<le> totalBooks sd \<and>
         success_rate sd = Percent (of_nat (successCount sd) / of_nat (totalBooks sd) * 100)"
proof -
  from store_okD [OF reachable_store_ok [OF assms(1)] assms(2)] assms(3)
  have "1 \<le> totalBooks sd" by (simp add: entry_ok_def)
  then show ?thesis by (simp add: success_rate_def)
qed

theorem C10_status_total_positive_witness:
  "reachable (step BulkTick (step (PostBulk ann three_books) quiet_world)) \<and>
   map_of (redis (step BulkTick (step (PostBulk ann three_books) quiet_world)))
     ''bulk_status:user:u1'' = Some \<lparr>val = VStatus ann_status, ttl = 3600\<rparr> \<and>
   1 \<le> totalBooks ann_status \<and>
   success_rate ann_status =
     Percent (of_nat (successCount ann_status) / of_nat (totalBooks ann_status) * 100)"
proof -
  have m: "map_of (redis (step BulkTick (step (PostBulk ann three_books) quiet_world)))
     ''bulk_status:user:u1'' = Some \<lparr>val = VStatus ann_status, ttl = 3600\<rparr>"
    unfolding quiet_redis by simp
  from C10_status_total_positive [OF quiet_reach m] show ?thesis
    using quiet_reach m by simp
qed

end
